theory Spec2Isabelle
  imports Complex_Main
begin

section \<open>JavaScript numbers\<close>

text \<open>
  The program computes with JavaScript numbers, which are doubles.  All the arithmetic
  of the partition and of the reassembly is on integers: image dimensions, tile side,
  counters and their sums, differences and products, which a double holds exactly below
  \<open>2^53\<close>; a quotient is taken under \<open>floor\<close> or \<open>ceil\<close>, or it is the number of rows
  of a group, an integer on every group of a partition.  There a finite number is an
  exact rational.  The three non-finite values are kept, because a division by a tile
  side of zero produces them.  The one product with a factor that is not an integer, the
  value of the generator times the length of the pool, is rounded as a double rounds it
  (\<open>roundDouble\<close> below).  The two zeros of IEEE arithmetic are identified: a divisor
  that is zero is the tile side \<open>0\<close> or a loop counter, hence a positive zero, except
  \<open>squaresPerRow\<close>, and the loop body that divides by it is not run when it is a zero.
\<close>

datatype jsnum = Num rat | PosInf | NegInf | NaN

fun jsneg :: "jsnum \<Rightarrow> jsnum" where
  "jsneg (Num a) = Num (- a)"
| "jsneg PosInf = NegInf"
| "jsneg NegInf = PosInf"
| "jsneg NaN = NaN"

fun jsadd :: "jsnum \<Rightarrow> jsnum \<Rightarrow> jsnum" where
  "jsadd (Num a) (Num b) = Num (a + b)"
| "jsadd NaN _ = NaN"
| "jsadd _ NaN = NaN"
| "jsadd PosInf NegInf = NaN"
| "jsadd NegInf PosInf = NaN"
| "jsadd PosInf _ = PosInf"
| "jsadd _ PosInf = PosInf"
| "jsadd NegInf _ = NegInf"
| "jsadd _ NegInf = NegInf"

definition jssub :: "jsnum \<Rightarrow> jsnum \<Rightarrow> jsnum" where
  "jssub a b = jsadd a (jsneg b)"

text \<open>The sign of a number that is not NaN: \<open>-1\<close>, \<open>0\<close> or \<open>1\<close>.\<close>

fun jssgn :: "jsnum \<Rightarrow> int" where
  "jssgn (Num a) = (if a < 0 then - 1 else if a = 0 then 0 else 1)"
| "jssgn PosInf = 1"
| "jssgn NegInf = - 1"
| "jssgn NaN = 0"

definition inf_of_sign :: "int \<Rightarrow> jsnum" where
  "inf_of_sign s = (if s < 0 then NegInf else if s = 0 then NaN else PosInf)"

fun jsmul :: "jsnum \<Rightarrow> jsnum \<Rightarrow> jsnum" where
  "jsmul (Num a) (Num b) = Num (a * b)"
| "jsmul NaN _ = NaN"
| "jsmul _ NaN = NaN"
| "jsmul a b = inf_of_sign (jssgn a * jssgn b)"

fun jsdiv :: "jsnum \<Rightarrow> jsnum \<Rightarrow> jsnum" where
  "jsdiv (Num a) (Num b) = (if b = 0 then inf_of_sign (jssgn (Num a)) else Num (a / b))"
| "jsdiv NaN _ = NaN"
| "jsdiv _ NaN = NaN"
| "jsdiv (Num a) _ = Num 0"
| "jsdiv a (Num b) = inf_of_sign (jssgn a * (if b < 0 then - 1 else 1))"
| "jsdiv _ _ = NaN"

fun jsfloor :: "jsnum \<Rightarrow> jsnum" where
  "jsfloor (Num a) = Num (of_int \<lfloor>a\<rfloor>)"
| "jsfloor v = v"

fun jsceil :: "jsnum \<Rightarrow> jsnum" where
  "jsceil (Num a) = Num (of_int \<lceil>a\<rceil>)"
| "jsceil v = v"

fun jsle :: "jsnum \<Rightarrow> jsnum \<Rightarrow> bool" where
  "jsle (Num a) (Num b) = (a \<le> b)"
| "jsle NaN _ = False"
| "jsle _ NaN = False"
| "jsle NegInf _ = True"
| "jsle _ PosInf = True"
| "jsle _ _ = False"

fun jslt :: "jsnum \<Rightarrow> jsnum \<Rightarrow> bool" where
  "jslt (Num a) (Num b) = (a < b)"
| "jslt NaN _ = False"
| "jslt _ NaN = False"
| "jslt PosInf _ = False"
| "jslt _ NegInf = False"
| "jslt _ _ = True"

text \<open>The strict inequality \<open>!==\<close> on numbers: NaN differs from everything, itself included.\<close>

definition jsne :: "jsnum \<Rightarrow> jsnum \<Rightarrow> bool" where
  "jsne a b = (a = NaN \<or> b = NaN \<or> a \<noteq> b)"

abbreviation jsint :: "int \<Rightarrow> jsnum" where
  "jsint k \<equiv> Num (of_int k)"

abbreviation jsnat :: "nat \<Rightarrow> jsnum" where
  "jsnat k \<equiv> Num (of_nat k)"

section \<open>Doubles\<close>

text \<open>
  Rounding to a double (IEEE 754 binary64, round to nearest, ties to even).  The number of
  binary digits of a natural number; the binary exponent \<open>e\<close> of a positive rational
  \<open>x\<close>, with \<open>2^e \<le> x < 2^(e+1)\<close>; the integer nearest to a rational, the even one of
  two that are equally near.
\<close>

fun bitLength :: "nat \<Rightarrow> nat" where
  "bitLength n = (if n = 0 then 0 else Suc (bitLength (n div 2)))"

declare bitLength.simps [simp del]

definition binaryExponent :: "rat \<Rightarrow> int" where
  "binaryExponent x =
     (if 1 \<le> x then int (bitLength (nat \<lfloor>x\<rfloor>)) - 1
      else - int (bitLength (nat (\<lceil>1 / x\<rceil> - 1))))"

definition roundToEven :: "rat \<Rightarrow> int" where
  "roundToEven q =
     (let f = \<lfloor>q\<rfloor>; d = q - of_int f
      in if d < 1 / 2 then f else if 1 / 2 < d then f + 1 else if even f then f else f + 1)"

text \<open>
  A double has 53 significant binary digits, and its exponent is at least \<open>-1022\<close> (the
  subnormal numbers share that exponent): the magnitude is rounded to a multiple of
  \<open>u = 2^(e - 52)\<close>.  A result of \<open>2^1024\<close> or more is infinite.
\<close>

definition roundDouble :: "rat \<Rightarrow> jsnum" where
  "roundDouble x =
     (if x = 0 then Num 0
      else let a = \<bar>x\<bar>;
               e = max (binaryExponent a) (- 1022);
               u = 2 powi (e - 52);
               v = of_int (roundToEven (a / u)) * u
           in if 1024 \<le> binaryExponent v then (if 0 < x then PosInf else NegInf)
              else Num (if 0 < x then v else - v))"

text \<open>A rational is a double when rounding leaves it as it is; the type of the doubles.\<close>

definition isDouble :: "rat \<Rightarrow> bool" where
  "isDouble r = (roundDouble r = Num r)"

typedef double = "{r :: rat. isDouble r}"
  morphisms doubleValue makeDouble
  by (rule exI[of _ 0]) (simp add: isDouble_def roundDouble_def)

setup_lifting type_definition_double

text \<open>The product \<open>a * b\<close> of two doubles.\<close>

definition doubleMul :: "rat \<Rightarrow> rat \<Rightarrow> jsnum" where
  "doubleMul a b = roundDouble (a * b)"

section \<open>Tiles and their groups\<close>

text \<open>The interface \<open>Square\<close>; \<open>imgReverser\<close> sets all four fields of every square.\<close>

record Square =
  x :: jsnum
  y :: jsnum
  width :: jsnum
  height :: jsnum

text \<open>The interface \<open>Group\<close>: \<open>slices\<close> is an array length and \<open>cols\<close> a loop index.\<close>

record Group =
  slices :: nat
  cols :: nat
  rows :: jsnum
  x :: jsnum
  y :: jsnum

text \<open>What the program can throw, and the call it issues on the canvas.\<close>

datatype error = TypeError | DecodeError

record DrawCall =
  sx :: jsnum
  sy :: jsnum
  sWidth :: jsnum
  sHeight :: jsnum
  dx :: jsnum
  dy :: jsnum
  dWidth :: jsnum
  dHeight :: jsnum

text \<open>
  The object \<open>squareGroups\<close>.  Its keys are the strings \<open>width + '-' + height\<close>; such
  a string determines both numbers, so a key is modelled as the pair.  No key is an array
  index, hence \<open>for ... in\<close> enumerates the keys in the order of their creation: the
  object is an association list in that order.
\<close>

type_synonym groupKey = "jsnum \<times> jsnum"
type_synonym squareGroups = "(groupKey \<times> Square list) list"

definition keyOf :: "Square \<Rightarrow> groupKey" where
  "keyOf sq = (width sq, height sq)"

text \<open>Lines 132 to 137: the square visited at loop index \<open>i\<close>.\<close>

definition makeSquare :: "jsnum \<Rightarrow> jsnum \<Rightarrow> jsnum \<Rightarrow> jsnum \<Rightarrow> nat \<Rightarrow> Square" where
  "makeSquare imageWidth imageHeight squareSideLength squaresPerRow i =
     (let row = jsfloor (jsdiv (jsnat i) squaresPerRow);
          qx = jsmul (jssub (jsnat i) (jsmul row squaresPerRow)) squareSideLength;
          qy = jsmul row squareSideLength;
          w = jssub squareSideLength
                (if jsle (jsadd qx squareSideLength) imageWidth then Num 0
                 else jssub (jsadd qx squareSideLength) imageWidth);
          h = jssub squareSideLength
                (if jsle (jsadd qy squareSideLength) imageHeight then Num 0
                 else jssub (jsadd qy squareSideLength) imageHeight)
      in \<lparr>Square.x = qx, Square.y = qy, width = w, height = h\<rparr>)"

text \<open>Lines 138 to 141: create the bucket when the key is new, then push the square.\<close>

definition pushSquare :: "Square \<Rightarrow> squareGroups \<Rightarrow> squareGroups" where
  "pushSquare sq gs =
     (let k = keyOf sq;
          gs1 = (if map_of gs k = None then gs @ [(k, [])] else gs)
      in map (\<lambda>(k', v). if k' = k then (k', v @ [sq]) else (k', v)) gs1)"

text \<open>
  Lines 130 to 142.  The bound \<open>totalSquares\<close> is a number.  When it is finite the loop
  returns the groups.  When it is infinite the loop has no exit and the call returns
  nothing (the array of squares grows until the runtime gives up): \<open>None\<close> stands for
  no return.
\<close>

partial_function (option) squaresLoop ::
  "jsnum \<Rightarrow> jsnum \<Rightarrow> jsnum \<Rightarrow> jsnum \<Rightarrow> jsnum \<Rightarrow> nat \<Rightarrow> squareGroups \<Rightarrow> squareGroups option" where
  "squaresLoop imageWidth imageHeight squareSideLength squaresPerRow totalSquares i gs =
     (if jslt (jsnat i) totalSquares
      then squaresLoop imageWidth imageHeight squareSideLength squaresPerRow totalSquares (Suc i)
             (pushSquare (makeSquare imageWidth imageHeight squareSideLength squaresPerRow i) gs)
      else Some gs)"

declare squaresLoop.simps [code]

text \<open>Lines 127 to 142 of \<open>imgReverser\<close>: the grid partition of the image.\<close>

definition partition_squares :: "jsnum \<Rightarrow> jsnum \<Rightarrow> jsnum \<Rightarrow> squareGroups option" where
  "partition_squares imageWidth imageHeight squareSideLength =
     (let totalSquares = jsmul (jsceil (jsdiv imageWidth squareSideLength))
                               (jsceil (jsdiv imageHeight squareSideLength));
          squaresPerRow = jsceil (jsdiv imageWidth squareSideLength)
      in squaresLoop imageWidth imageHeight squareSideLength squaresPerRow totalSquares 0 [])"

section \<open>Ranges\<close>

text \<open>
  \<open>createRange\<close> is only called on array lengths, so its arguments are integers and
  \<open>toNumber\<close> leaves them as they are (its first branch).  The optional parameters are
  options.
\<close>

definition toNumber :: "int \<Rightarrow> int" where
  "toNumber input = input"

text \<open>
  The loop of \<open>baseRange\<close> fills the new array from the left (\<open>fromRight\<close> false) or
  from the right; the list holds the part that is filled.
\<close>

fun baseRangeLoop :: "nat \<Rightarrow> int \<Rightarrow> int \<Rightarrow> bool \<Rightarrow> int list \<Rightarrow> int list" where
  "baseRangeLoop 0 start step fromRight result = result"
| "baseRangeLoop (Suc n) start step fromRight result =
     baseRangeLoop n (start + step) step fromRight
       (if fromRight then start # result else result @ [start])"

definition baseRange :: "int \<Rightarrow> int \<Rightarrow> int \<Rightarrow> bool \<Rightarrow> int list" where
  "baseRange start end step fromRight =
     (let len = max \<lceil>(of_int (end - start) :: rat) / of_int (if step = 0 then 1 else step)\<rceil> 0
      in baseRangeLoop (nat len) start step fromRight [])"

definition createRange :: "int \<Rightarrow> int option \<Rightarrow> int option \<Rightarrow> int list" where
  "createRange start end step =
     (let start1 = (if start \<noteq> 0 then toNumber start else 0);
          (start2, end2) = (case end of None \<Rightarrow> (0, start1) | Some e \<Rightarrow> (start1, toNumber e));
          step2 = (case step of None \<Rightarrow> (if start2 < end2 then 1 else - 1)
                   | Some st \<Rightarrow> toNumber st)
      in baseRange start2 end2 step2 False)"

section \<open>The seeded permutation\<close>

text \<open>
  The generator \<open>seedrandom(seed)\<close> is an external library: a deterministic stream of
  doubles, here the function from the number of draws made so far to the next value.
  An argument of type \<open>any[]\<close> is an array or something else.
\<close>

type_synonym generator = "nat \<Rightarrow> double"

datatype 'a any = Arr "'a list" | NotArr

record 'a shuffleState =
  shuffledArray :: "'a option list"
  indexArray :: "nat list"
  draws :: nat

text \<open>\<open>xs[i]\<close> for any integer index: out of range it is \<open>undefined\<close>.\<close>

definition jsIndex :: "'a list \<Rightarrow> int \<Rightarrow> 'a option" where
  "jsIndex xs i = (if 0 \<le> i \<and> i < int (length xs) then Some (xs ! nat i) else None)"

text \<open>\<open>xs.splice(start, deleteCount)\<close>, as far as the array that is left is concerned.\<close>

definition splice :: "'a list \<Rightarrow> int \<Rightarrow> int \<Rightarrow> 'a list" where
  "splice xs start deleteCount =
     (let len = int (length xs);
          actualStart = (if start < 0 then max (len + start) 0 else min start len);
          actualDeleteCount = min (max deleteCount 0) (len - actualStart)
      in take (nat actualStart) xs @ drop (nat (actualStart + actualDeleteCount)) xs)"

text \<open>
  The index drawn is a number.  \<open>xs[v]\<close> is an element only when \<open>v\<close> is an integer within
  the array.  \<open>splice\<close> truncates its start; NaN counts as \<open>0\<close>, and an infinite start is
  clamped as every start beyond the ends is.
\<close>

definition jsIndexNum :: "'a list \<Rightarrow> jsnum \<Rightarrow> 'a option" where
  "jsIndexNum xs v =
     (case v of Num q \<Rightarrow> (if q = of_int \<lfloor>q\<rfloor> then jsIndex xs \<lfloor>q\<rfloor> else None) | _ \<Rightarrow> None)"

definition relativeStart :: "nat \<Rightarrow> jsnum \<Rightarrow> int" where
  "relativeStart len start =
     (case start of
        Num q \<Rightarrow> (if 0 \<le> q then \<lfloor>q\<rfloor> else \<lceil>q\<rceil>)
      | PosInf \<Rightarrow> int len
      | NegInf \<Rightarrow> - int len
      | NaN \<Rightarrow> 0)"

text \<open>Lines 107 to 110.\<close>

definition initStep :: "nat \<Rightarrow> 'a shuffleState \<Rightarrow> 'a shuffleState" where
  "initStep i st = st\<lparr>shuffledArray := shuffledArray st @ [None],
                      indexArray := indexArray st @ [i]\<rparr>"

text \<open>
  Lines 112 to 116.  The product of the value drawn and the length of the pool is a
  product of doubles.  An index read out of range is \<open>undefined\<close>, and the assignment
  \<open>shuffledArray[undefined] = ...\<close> then changes no element.  Every element of
  \<open>indexArray\<close> is an index of \<open>shuffledArray\<close> (lemma \<open>fold_shuffleStep_in_range\<close>
  below), so the assignment never extends the array: it is a list update.
\<close>

definition shuffleStep :: "generator \<Rightarrow> 'a list \<Rightarrow> nat \<Rightarrow> 'a shuffleState \<Rightarrow> 'a shuffleState" where
  "shuffleStep randomGenerator array i st =
     (let randomIndex =
            jsadd (jsfloor (doubleMul (doubleValue (randomGenerator (draws st)))
                                      (of_int (int (length (indexArray st)) - 1 - 0 + 1))))
                  (Num 0);
          index = jsIndexNum (indexArray st) randomIndex;
          indexArray1 = splice (indexArray st)
                          (relativeStart (length (indexArray st)) randomIndex) 1
      in \<lparr>shuffledArray =
            (case index of None \<Rightarrow> shuffledArray st
             | Some d \<Rightarrow> (shuffledArray st)[d := Some (array ! i)]),
          indexArray = indexArray1,
          draws = Suc (draws st)\<rparr>)"

definition unShuffleRun :: "(string \<Rightarrow> generator) \<Rightarrow> 'a list \<Rightarrow> string \<Rightarrow> 'a shuffleState" where
  "unShuffleRun seedrandom array seed =
     (let arrayLength = length array;
          randomGenerator = seedrandom seed;
          st0 = \<lparr>shuffledArray = [], indexArray = [], draws = 0\<rparr>;
          st1 = fold initStep [0..<arrayLength] st0
      in fold (shuffleStep randomGenerator array) [0..<arrayLength] st1)"

text \<open>\<open>unShuffle\<close> returns \<open>null\<close> (here \<open>None\<close>) or the array \<open>shuffledArray\<close>.\<close>

definition unShuffle :: "(string \<Rightarrow> generator) \<Rightarrow> 'a any \<Rightarrow> string \<Rightarrow> 'a option list option" where
  "unShuffle seedrandom array seed =
     (case array of NotArr \<Rightarrow> None
      | Arr xs \<Rightarrow> Some (shuffledArray (unShuffleRun seedrandom xs seed)))"

text \<open>The spec's \<open>permute(N, seed)\<close> is the call of line 144.\<close>

definition permute :: "(string \<Rightarrow> generator) \<Rightarrow> nat \<Rightarrow> string \<Rightarrow> int option list option" where
  "permute seedrandom n seed = unShuffle seedrandom (Arr (createRange 0 (Some (int n)) None)) seed"

definition permuteDraws :: "(string \<Rightarrow> generator) \<Rightarrow> nat \<Rightarrow> string \<Rightarrow> nat" where
  "permuteDraws seedrandom n seed =
     draws (unShuffleRun seedrandom (createRange 0 (Some (int n)) None) seed)"

section \<open>Group geometry\<close>

text \<open>Lines 88 to 95: \<open>cols\<close> is \<open>undefined\<close> until the first square has been read.\<close>

fun colsLoop :: "jsnum option \<Rightarrow> nat \<Rightarrow> Square list \<Rightarrow> nat" where
  "colsLoop c0 i [] = i"
| "colsLoop c0 i (sq # rest) =
     (let cols1 = (case c0 of None \<Rightarrow> Square.y sq | Some c \<Rightarrow> c)
      in if jsne cols1 (Square.y sq) then i else colsLoop (Some cols1) (Suc i) rest)"

definition getColsInGroup :: "Square list \<Rightarrow> nat" where
  "getColsInGroup grp = (if length grp = 1 then 1 else colsLoop None 0 grp)"

text \<open>\<open>group[0].x\<close> throws a TypeError when the group is empty.\<close>

definition getGroup :: "Square list \<Rightarrow> error + Group" where
  "getGroup grp =
     (case grp of
        [] \<Rightarrow> Inl TypeError
      | g0 # _ \<Rightarrow>
          (let result = \<lparr>slices = length grp, cols = getColsInGroup grp, rows = Num 0,
                         Group.x = Square.x g0, Group.y = Square.y g0\<rparr>
           in Inr (result\<lparr>rows := jsdiv (jsnat (length grp)) (jsnat (cols result))\<rparr>)))"

section \<open>Reassembly\<close>

text \<open>
  Lines 147 to 160: the call \<open>drawImage\<close> issued for the square at position \<open>index\<close>
  of its group.  In arithmetic \<open>null\<close> counts as \<open>0\<close> and \<open>undefined\<close> as NaN.
\<close>

definition drawSquare :: "int option list \<Rightarrow> Group \<Rightarrow> nat \<Rightarrow> Square \<Rightarrow> DrawCall" where
  "drawSquare deshuffled grp index square =
     (let deltaX0 = (case jsIndex deshuffled (int index) of
                       None \<Rightarrow> NaN
                     | Some None \<Rightarrow> Num 0
                     | Some (Some v) \<Rightarrow> jsint v);
          deltaY0 = jsfloor (jsdiv deltaX0 (jsnat (cols grp)));
          deltaX = jsmul (jssub deltaX0 (jsmul deltaY0 (jsnat (cols grp)))) (width square);
          deltaY = jsmul deltaY0 (height square)
      in \<lparr>sx = jsadd (Group.x grp) deltaX, sy = jsadd (Group.y grp) deltaY,
          sWidth = width square, sHeight = height square,
          dx = Square.x square, dy = Square.y square,
          dWidth = width square, dHeight = height square\<rparr>)"

text \<open>
  Lines 144 to 161, for one group.  Reading an element of \<open>null\<close> would throw a
  TypeError, as \<open>getGroup\<close> does on an empty group.
\<close>

definition drawGroup :: "(string \<Rightarrow> generator) \<Rightarrow> string \<Rightarrow> Square list \<Rightarrow> error + DrawCall list" where
  "drawGroup seedrandom stringSeed squares =
     (let deshuffled = unShuffle seedrandom (Arr (createRange 0 (Some (int (length squares))) None))
                         stringSeed
      in case getGroup squares of
           Inl e \<Rightarrow> Inl e
         | Inr grp \<Rightarrow>
             (case deshuffled of
                None \<Rightarrow> (if squares = [] then Inr [] else Inl TypeError)
              | Some d \<Rightarrow> Inr (map (\<lambda>(index, square). drawSquare d grp index square)
                                   (enumerate 0 squares))))"

text \<open>Line 143: the groups in the order of their keys; an exception ends the loop.\<close>

fun drawGroups :: "(string \<Rightarrow> generator) \<Rightarrow> string \<Rightarrow> squareGroups \<Rightarrow> error + DrawCall list" where
  "drawGroups seedrandom stringSeed [] = Inr []"
| "drawGroups seedrandom stringSeed ((k, squares) # rest) =
     (case drawGroup seedrandom stringSeed squares of
        Inl e \<Rightarrow> Inl e
      | Inr calls \<Rightarrow>
          (case drawGroups seedrandom stringSeed rest of
             Inl e \<Rightarrow> Inl e
           | Inr calls1 \<Rightarrow> Inr (calls @ calls1)))"

text \<open>
  A decoded image has integer dimensions and pixels, which stay abstract.  The PNG
  that \<open>imgReverser\<close> returns is determined by the canvas: its size, the image drawn
  from and the calls of \<open>drawImage\<close> in their order.
\<close>

record 'p Image =
  imgWidth :: int
  imgHeight :: int
  pixels :: 'p

record 'p Canvas =
  canvasWidth :: int
  canvasHeight :: int
  drawnFrom :: "'p Image"
  calls :: "DrawCall list"

text \<open>
  \<open>imgReverser\<close>, lines 121 to 164.  The decoder \<open>loadImage\<close> is external and may
  throw.  The outer \<open>None\<close> is the partition that does not return.
\<close>

definition imgReverser ::
  "(string \<Rightarrow> generator) \<Rightarrow> ('u \<Rightarrow> error + 'p Image) \<Rightarrow> 'u \<Rightarrow> jsnum \<Rightarrow> string
     \<Rightarrow> (error + 'p Canvas) option" where
  "imgReverser seedrandom loadImage imageSrcUrl squareSideLength stringSeed =
     (case loadImage imageSrcUrl of
        Inl e \<Rightarrow> Some (Inl e)
      | Inr img \<Rightarrow>
          (let imageWidth = imgWidth img; imageHeight = imgHeight img
           in case partition_squares (jsint imageWidth) (jsint imageHeight) squareSideLength of
                None \<Rightarrow> None
              | Some squareGroups \<Rightarrow>
                  Some (case drawGroups seedrandom stringSeed squareGroups of
                          Inl e \<Rightarrow> Inl e
                        | Inr cs \<Rightarrow> Inr \<lparr>canvasWidth = imageWidth, canvasHeight = imageHeight,
                                        drawnFrom = img, calls = cs\<rparr>)))"

section \<open>The request handler\<close>

text \<open>
  A request carries its method (\<open>reqMethod\<close>) and its body; \<open>req.json()\<close> either throws or yields a
  JSON value.  An object is the list of its own properties.
\<close>

datatype json = JNull | JBool bool | JNumber rat | JString string | JArray "json list"
  | JObject "(string \<times> json) list"

record Request =
  reqMethod :: string
  body :: "json option"

datatype 'p content = Text string | Png "'p Canvas"

record 'p Response =
  status :: nat
  content :: "'p content"
  contentType :: "string option"

text \<open>\<open>body.imgURL\<close>: a TypeError on \<open>null\<close>, \<open>undefined\<close> where there is no such property.\<close>

definition imgURLOf :: "json \<Rightarrow> error + json option" where
  "imgURLOf b =
     (case b of JNull \<Rightarrow> Inl TypeError
      | JObject props \<Rightarrow> Inr (map_of props ''imgURL'')
      | _ \<Rightarrow> Inr None)"

definition truthy :: "json option \<Rightarrow> bool" where
  "truthy v =
     (case v of None \<Rightarrow> False
      | Some JNull \<Rightarrow> False
      | Some (JBool b) \<Rightarrow> b
      | Some (JNumber n) \<Rightarrow> n \<noteq> 0
      | Some (JString s) \<Rightarrow> s \<noteq> []
      | Some _ \<Rightarrow> True)"

text \<open>
  \<open>imgURL.toString()\<close> throws a TypeError when the value is an object with a property
  \<open>toString\<close> of its own, since no JSON value can be called; an array joins the
  strings of its elements, and so throws when one of them does.
\<close>

fun toStringThrows :: "json \<Rightarrow> bool" where
  "toStringThrows (JObject props) = (map_of props ''toString'' \<noteq> None)"
| "toStringThrows (JArray xs) = (\<exists>v \<in> set xs. toStringThrows v)"
| "toStringThrows _ = False"

definition handler ::
  "(string \<Rightarrow> generator) \<Rightarrow> (json \<Rightarrow> error + 'p Image) \<Rightarrow> Request \<Rightarrow> (error + 'p Response) option" where
  "handler seedrandom loadImage req =
     (if reqMethod req \<noteq> ''POST''
      then Some (Inr \<lparr>status = 400, content = Text ''Bad request: Only POST method is allowed'',
                      contentType = None\<rparr>)
      else case body req of
        None \<Rightarrow> Some (Inr \<lparr>status = 400,
                             content = Text ''Bad request: request body is not valid JSON'',
                             contentType = None\<rparr>)
      | Some b \<Rightarrow>
          (case imgURLOf b of
             Inl e \<Rightarrow> Some (Inl e)
           | Inr imgURL \<Rightarrow>
               if \<not> truthy imgURL
               then Some (Inr \<lparr>status = 400,
                               content = Text ''Bad request: missing imgURL in request body'',
                               contentType = None\<rparr>)
               else if toStringThrows (the imgURL) then Some (Inl TypeError)
               else (case imgReverser seedrandom loadImage (the imgURL) (Num 200) ''stay'' of
                       None \<Rightarrow> None
                     | Some (Inl e) \<Rightarrow> Some (Inl e)
                     | Some (Inr data) \<Rightarrow>
                         Some (Inr \<lparr>status = 200, content = Png data,
                                     contentType = Some ''image/png''\<rparr>))))"

section \<open>Notions used to state the properties\<close>

text \<open>
  The squares of one key, in the order of the list; the keys in the order of their first
  occurrence; the grouping of a list of squares.
\<close>

definition bucket :: "groupKey \<Rightarrow> Square list \<Rightarrow> Square list" where
  "bucket k ts = filter (\<lambda>t. keyOf t = k) ts"

definition firstKeys :: "Square list \<Rightarrow> groupKey list" where
  "firstKeys ts = rev (remdups (rev (map keyOf ts)))"

definition groupsOf :: "Square list \<Rightarrow> squareGroups" where
  "groupsOf ts = map (\<lambda>k. (k, bucket k ts)) (firstKeys ts)"

definition allSquares :: "squareGroups \<Rightarrow> Square list" where
  "allSquares gs = concat (map snd gs)"

text \<open>
  The partition as the specification words it: the tile at row \<open>r\<close> and column \<open>c\<close>,
  and the tile list, rows from top to bottom and each row from left to right, with
  \<open>ceil(H / S)\<close> rows and \<open>ceil(W / S)\<close> columns.
\<close>

definition spec_tile :: "int \<Rightarrow> int \<Rightarrow> int \<Rightarrow> nat \<Rightarrow> nat \<Rightarrow> Square" where
  "spec_tile W H S r c =
     \<lparr>Square.x = jsint (int c * S), Square.y = jsint (int r * S),
      width = jsint (min S (W - int c * S)), height = jsint (min S (H - int r * S))\<rparr>"

definition spec_tiles :: "int \<Rightarrow> int \<Rightarrow> int \<Rightarrow> Square list" where
  "spec_tiles W H S =
     concat (map (\<lambda>r. map (\<lambda>c. spec_tile W H S r c) [0..<nat \<lceil>of_int W / (of_int S :: rat)\<rceil>])
                 [0..<nat \<lceil>of_int H / (of_int S :: rat)\<rceil>])"

text \<open>The pixel \<open>(px, py)\<close> lies in the rectangle of the square.\<close>

definition covers :: "Square \<Rightarrow> int \<Rightarrow> int \<Rightarrow> bool" where
  "covers t px py =
     (jsle (Square.x t) (jsint px) \<and> jslt (jsint px) (jsadd (Square.x t) (width t))
    \<and> jsle (Square.y t) (jsint py) \<and> jslt (jsint py) (jsadd (Square.y t) (height t)))"

text \<open>
  The permutation as the specification words it.  The pool starts as \<open>[0, ..., N-1]\<close>;
  for each \<open>source\<close> one value \<open>r\<close> is drawn (the draw number \<open>source\<close> of the
  stream), \<open>pick = floor(r * length pool)\<close>, \<open>dest = pool[pick]\<close>, the element at
  \<open>pick\<close> is removed and \<open>result[dest] = source\<close>.  The value \<open>r\<close> is a float, and
  the product is that of floats.  A slot of \<open>result\<close> that was never set is \<open>None\<close>.
\<close>

definition spec_pick :: "double \<Rightarrow> nat \<Rightarrow> nat" where
  "spec_pick r remaining =
     (case jsfloor (doubleMul (doubleValue r) (of_nat remaining)) of
        Num q \<Rightarrow> nat \<lfloor>q\<rfloor>
      | _ \<Rightarrow> 0)"

fun spec_loop :: "generator \<Rightarrow> nat list \<Rightarrow> nat list \<Rightarrow> (nat \<rightharpoonup> nat) \<Rightarrow> (nat \<rightharpoonup> nat)" where
  "spec_loop rng [] pool result = result"
| "spec_loop rng (source # rest) pool result =
     (let r = rng source;
          pick = spec_pick r (length pool);
          dest = pool ! pick;
          pool1 = take pick pool @ drop (Suc pick) pool
      in spec_loop rng rest pool1 (result(dest \<mapsto> source)))"

definition spec_permute :: "generator \<Rightarrow> nat \<Rightarrow> nat option list" where
  "spec_permute rng N = map (spec_loop rng [0..<N] [0..<N] Map.empty) [0..<N]"

text \<open>
  The copy of one tile as the specification words it: \<open>slot = permutation[idx]\<close>,
  \<open>srcRow = floor(slot / geometry.cols)\<close>, \<open>srcCol = slot - srcRow * geometry.cols\<close>, a
  block of the tile's own size from \<open>(geometry.x + srcCol * tile.width,
  geometry.y + srcRow * tile.height)\<close> to \<open>(tile.x, tile.y)\<close>.
\<close>

definition spec_call :: "nat list \<Rightarrow> Group \<Rightarrow> nat \<Rightarrow> Square \<Rightarrow> DrawCall" where
  "spec_call permutation geometry idx tile =
     (let slot = int (permutation ! idx);
          srcRow = slot div int (cols geometry);
          srcCol = slot - srcRow * int (cols geometry)
      in \<lparr>sx = jsadd (Group.x geometry) (jsmul (jsint srcCol) (width tile)),
          sy = jsadd (Group.y geometry) (jsmul (jsint srcRow) (height tile)),
          sWidth = width tile, sHeight = height tile,
          dx = Square.x tile, dy = Square.y tile,
          dWidth = width tile, dHeight = height tile\<rparr>)"

text \<open>
  Inputs on which the program is run below: two doubles, \<open>0.5\<close> and
  \<open>0.3333333333333333\<close>; a generator that always draws the same value; a decoder that
  yields an image of a given size.
\<close>

lift_definition doubleHalf :: double is "1 / 2"
  by code_simp

lift_definition doubleThird :: double is "6004799503160661 / 18014398509481984"
  by code_simp

definition constGenerator :: "double \<Rightarrow> string \<Rightarrow> generator" where
  "constGenerator r seed k = r"

definition blankImage :: "int \<Rightarrow> int \<Rightarrow> unit \<Rightarrow> error + unit Image" where
  "blankImage W H url = Inr \<lparr>imgWidth = W, imgHeight = H, pixels = ()\<rparr>"

section \<open>Rounding to a double\<close>

lemma bitLength_bounds:
  "0 < n \<Longrightarrow> 2 ^ (bitLength n - 1) \<le> n \<and> n < 2 ^ bitLength n"
proof (induction n rule: bitLength.induct)
  case (1 n)
  show ?case
  proof (cases "n div 2 = 0")
    case True
    hence "n = 1" using 1(2) by auto
    thus ?thesis by (simp add: bitLength.simps)
  next
    case False
    hence h: "0 < n div 2" by simp
    have n0: "n \<noteq> 0" using 1(2) by simp
    from 1(1)[OF n0 h] have ih: "2 ^ (bitLength (n div 2) - 1) \<le> n div 2" "n div 2 < 2 ^ bitLength (n div 2)"
      by simp_all
    have b: "bitLength n = Suc (bitLength (n div 2))" using n0 by (subst bitLength.simps) simp
    have p: "0 < bitLength (n div 2)" using h by (subst bitLength.simps) simp
    have "(2::nat) ^ bitLength (n div 2) = 2 * 2 ^ (bitLength (n div 2) - 1)"
      using p by (cases "bitLength (n div 2)") simp_all
    moreover have "2 * (n div 2) \<le> n" by simp
    ultimately have lo: "2 ^ bitLength (n div 2) \<le> n" using ih(1) by linarith
    have "n < 2 * (n div 2) + 2" by linarith
    hence hi: "n < 2 * 2 ^ bitLength (n div 2)" using ih(2) by linarith
    show ?thesis unfolding b using lo hi by simp
  qed
qed

lemma bitLength_pos: "0 < n \<Longrightarrow> 0 < bitLength n"
  by (subst bitLength.simps) simp

lemma binaryExponent_bounds:
  assumes "0 < z"
  shows "2 powi (binaryExponent z) \<le> z" and "z < 2 powi (binaryExponent z + 1)"
proof -
  have "2 powi (binaryExponent z) \<le> z \<and> z < 2 powi (binaryExponent z + 1)"
  proof (cases "1 \<le> z")
    case True
    define f where "f = nat \<lfloor>z\<rfloor>"
    define b where "b = bitLength f"
    have f1: "1 \<le> \<lfloor>z\<rfloor>" using True by simp
    hence f: "0 < f" by (simp add: f_def)
    have b: "0 < b" unfolding b_def by (rule bitLength_pos[OF f])
    have bd: "2 ^ (b - 1) \<le> f" "f < 2 ^ b"
      using bitLength_bounds[OF f] by (simp_all add: b_def)
    have e: "binaryExponent z = int (b - 1)"
      using True b by (simp add: binaryExponent_def b_def f_def of_nat_diff)
    have e1: "binaryExponent z + 1 = int b" using e b by simp
    have fx: "(of_nat f :: rat) \<le> z" "z < of_nat f + 1"
      using f1 by (simp_all add: f_def) linarith+
    have "(2::rat) ^ (b - 1) \<le> of_nat f" using bd(1) by (metis of_nat_le_iff of_nat_numeral of_nat_power)
    hence lo: "(2::rat) ^ (b - 1) \<le> z" using fx(1) by linarith
    have "f + 1 \<le> 2 ^ b" using bd(2) by simp
    hence "(of_nat (f + 1) :: rat) \<le> of_nat (2 ^ b)" by (simp only: of_nat_le_iff)
    hence "(of_nat f :: rat) + 1 \<le> 2 ^ b" by simp
    hence hi: "z < 2 ^ b" using fx(2) by linarith
    show ?thesis unfolding e1 unfolding e using lo hi by simp
  next
    case False
    define w where "w = 1 / z"
    define m where "m = nat (\<lceil>w\<rceil> - 1)"
    define b where "b = bitLength m"
    have x1: "z < 1" using False by simp
    have y1: "1 < w" unfolding w_def using assms x1 by simp
    hence c2: "2 \<le> \<lceil>w\<rceil>" by linarith
    hence m: "0 < m" "int m = \<lceil>w\<rceil> - 1" by (simp_all add: m_def)
    have b: "0 < b" unfolding b_def by (rule bitLength_pos[OF m(1)])
    have bd: "2 ^ (b - 1) \<le> m" "m < 2 ^ b"
      using bitLength_bounds[OF m(1)] by (simp_all add: b_def)
    have e: "binaryExponent z = - int b"
      using False by (simp add: binaryExponent_def b_def m_def w_def)
    have my: "(of_nat m :: rat) < w" "w \<le> of_nat m + 1"
    proof -
      have "(of_int (int m) :: rat) < w" unfolding m(2) by linarith
      thus "(of_nat m :: rat) < w" by simp
      have "w \<le> of_int (int m) + 1" unfolding m(2) by simp
      thus "w \<le> of_nat m + 1" by simp
    qed
    have "m + 1 \<le> 2 ^ b" using bd(2) by simp
    hence "(of_nat (m + 1) :: rat) \<le> of_nat (2 ^ b)" by (simp only: of_nat_le_iff)
    hence "(of_nat m :: rat) + 1 \<le> 2 ^ b" by simp
    hence "1 / z \<le> 2 ^ b" using my(2) unfolding w_def by linarith
    hence "1 \<le> 2 ^ b * z" using assms by (simp add: pos_divide_le_eq)
    hence lo: "1 / 2 ^ b \<le> z" by (simp add: pos_divide_le_eq mult.commute)
    have "(2::rat) ^ (b - 1) \<le> of_nat m" using bd(1) by (metis of_nat_le_iff of_nat_numeral of_nat_power)
    hence "(2::rat) ^ (b - 1) < 1 / z" using my(1) unfolding w_def by linarith
    hence "2 ^ (b - 1) * z < 1" using assms by (simp add: pos_less_divide_eq)
    hence hi: "z < 1 / 2 ^ (b - 1)" by (simp add: pos_less_divide_eq mult.commute)
    have p1: "(2::rat) powi (- int b) = 1 / 2 ^ b" by (simp add: power_int_minus_divide)
    have "- int b + 1 = - int (b - 1)" using b by simp
    hence p2: "(2::rat) powi (- int b + 1) = 1 / 2 ^ (b - 1)"
      by (simp only: power_int_minus_divide power_int_of_nat)
    show ?thesis unfolding e p1 p2 using lo hi by simp
  qed
  thus "2 powi (binaryExponent z) \<le> z" and "z < 2 powi (binaryExponent z + 1)" by simp_all
qed

lemma roundToEven_nonneg: "0 \<le> q \<Longrightarrow> 0 \<le> roundToEven q"
  by (auto simp: roundToEven_def Let_def)

lemma roundToEven_below:
  assumes "q < of_int N - 1 / 2"
  shows "roundToEven q \<le> N - 1"
proof -
  have f: "\<lfloor>q\<rfloor> \<le> N - 1" using assms by linarith
  show ?thesis
  proof (cases "\<lfloor>q\<rfloor> \<le> N - 2")
    case True
    thus ?thesis by (auto simp: roundToEven_def Let_def)
  next
    case False
    hence "\<lfloor>q\<rfloor> = N - 1" using f by simp
    moreover hence "q - of_int \<lfloor>q\<rfloor> < 1 / 2" using assms by simp
    ultimately show ?thesis by (simp add: roundToEven_def Let_def)
  qed
qed

lemma roundDouble_pos:
  assumes "0 < z"
  shows "roundDouble z =
     (if 1024 \<le> binaryExponent (of_int (roundToEven (z / 2 powi (max (binaryExponent z) (- 1022) - 52)))
                                    * 2 powi (max (binaryExponent z) (- 1022) - 52))
      then PosInf
      else Num (of_int (roundToEven (z / 2 powi (max (binaryExponent z) (- 1022) - 52)))
                * 2 powi (max (binaryExponent z) (- 1022) - 52)))"
  using assms unfolding roundDouble_def Let_def by simp

lemma pow2_less_exp:
  assumes "(2::rat) powi a < 2 powi b"
  shows "a < b"
proof (rule ccontr)
  assume "\<not> a < b"
  hence "b \<le> a" by simp
  hence "(2::rat) powi b \<le> 2 powi a" by (intro power_int_increasing) simp_all
  thus False using assms by simp
qed

lemma binaryExponent_less:
  assumes "0 \<le> v" and "v < 2 powi k" and "0 \<le> k"
  shows "binaryExponent v < k + 1"
proof (cases "v = 0")
  case True
  thus ?thesis using assms(3) by (simp add: binaryExponent_def bitLength.simps)
next
  case False
  hence v: "0 < v" using assms(1) by simp
  have "(2::rat) powi binaryExponent v < 2 powi k"
    using binaryExponent_bounds(1)[OF v] assms(2) by linarith
  hence "binaryExponent v < k" by (rule pow2_less_exp)
  thus ?thesis by simp
qed

lemma round_product_below:
  fixes n :: nat
  assumes "0 \<le> r" and "r \<le> 1 - 1 / 2 ^ 53" and "0 < n" and "n < 2 ^ 53"
  shows "\<exists>v. roundDouble (r * of_nat n) = Num v \<and> 0 \<le> v \<and> v < of_nat n"
proof (cases "r = 0")
  case True
  thus ?thesis using assms(3) by (simp add: roundDouble_def)
next
  case False
  define z where "z = r * of_nat n"
  define e where "e = max (binaryExponent z) (- 1022)"
  define u where "u = (2::rat) powi (e - 52)"
  define m where "m = roundToEven (z / u)"
  define v where "v = of_int m * u"
  have r: "0 < r" using False assms(1) by simp
  have nr: "(0::rat) < of_nat n" using assms(3) by simp
  have z: "0 < z" unfolding z_def using r nr by simp
  have u: "0 < u" unfolding u_def by simp
  have n53: "(of_nat n :: rat) < 2 powi 53"
  proof -
    have "(of_nat n :: rat) < of_nat (2 ^ 53)" using assms(4) by (simp only: of_nat_less_iff)
    thus ?thesis by simp
  qed
  have "z \<le> (1 - 1 / 2 ^ 53) * of_nat n"
    unfolding z_def using assms(2) nr by (intro mult_right_mono) simp_all
  hence xb: "z \<le> of_nat n - of_nat n / 2 ^ 53" by (simp add: algebra_simps)
  have "0 < of_nat n / (2::rat) ^ 53" using nr by simp
  hence xn: "z < of_nat n" using xb by linarith
  have pe: "(2::rat) powi e < of_nat n"
  proof (cases "binaryExponent z \<le> - 1022")
    case True
    hence e: "e = - 1022" by (simp add: e_def)
    have "(2::rat) powi (- 1022) < 2 powi 0" by (intro power_int_strict_increasing) simp_all
    hence "(2::rat) powi e < 1" unfolding e by simp
    moreover have "(1::rat) \<le> of_nat n" using assms(3) by simp
    ultimately show ?thesis by linarith
  next
    case False
    hence "e = binaryExponent z" by (simp add: e_def)
    thus ?thesis using binaryExponent_bounds(1)[OF z] xn by simp
  qed
  hence "(2::rat) powi e < 2 powi 53" using n53 by linarith
  hence e53: "e < 53" by (rule pow2_less_exp)
  define j where "j = nat (52 - e)"
  have j: "int j = 52 - e" using e53 by (simp add: j_def)
  have ui: "1 / u = 2 ^ j"
  proof -
    have "e - 52 = - int j" using j by simp
    thus ?thesis unfolding u_def by (simp only: power_int_minus_divide power_int_of_nat) simp
  qed
  define Nn where "Nn = int n * 2 ^ j"
  have Nn: "of_nat n / u = of_int Nn"
  proof -
    have "of_nat n / u = of_nat n * (1 / u)" by simp
    thus ?thesis unfolding ui Nn_def by simp
  qed
  have half: "u / 2 < of_nat n / 2 ^ 53"
  proof -
    have "u * 2 ^ 52 = 2 powi e"
    proof -
      have "(2::rat) powi e = 2 powi ((e - 52) + 52)" by simp
      also have "\<dots> = 2 powi (e - 52) * 2 powi 52" by (subst power_int_add) simp_all
      finally show ?thesis unfolding u_def by simp
    qed
    hence "u * 2 ^ 52 < of_nat n" using pe by simp
    hence "u * 2 ^ 52 / 2 ^ 53 < of_nat n / 2 ^ 53" by (simp add: divide_strict_right_mono)
    thus ?thesis by simp
  qed
  have "z < of_nat n - u / 2" using xb half by linarith
  hence "z / u < (of_nat n - u / 2) / u" using u by (simp add: divide_strict_right_mono)
  also have "\<dots> = of_nat n / u - 1 / 2" using u by (simp add: diff_divide_distrib)
  finally have q: "z / u < of_int Nn - 1 / 2" unfolding Nn .
  have mle: "m \<le> Nn - 1" unfolding m_def by (rule roundToEven_below[OF q])
  have m0: "0 \<le> m" unfolding m_def using z u by (intro roundToEven_nonneg) simp
  have v0: "0 \<le> v" unfolding v_def using m0 u by simp
  have "v \<le> of_int (Nn - 1) * u" unfolding v_def using mle u by (intro mult_right_mono) simp_all
  also have "\<dots> = of_nat n - u"
  proof -
    have "of_int Nn * u = of_nat n" using Nn u by (simp add: nonzero_divide_eq_eq)
    thus ?thesis by (simp add: algebra_simps)
  qed
  finally have vn: "v < of_nat n" using u by linarith
  hence "v < 2 powi 53" using n53 by linarith
  hence "binaryExponent v < 53 + 1" using v0 by (intro binaryExponent_less) simp_all
  hence no: "\<not> 1024 \<le> binaryExponent v" by simp
  have "roundDouble z = Num v"
    using roundDouble_pos[OF z] no unfolding v_def m_def u_def e_def by simp
  thus ?thesis using v0 vn unfolding z_def by blast
qed

lemma double_below_one:
  assumes "isDouble r" and "0 \<le> r" and "r < 1"
  shows "r \<le> 1 - 1 / 2 ^ 53"
proof (cases "r = 0")
  case True
  thus ?thesis by simp
next
  case False
  hence r: "0 < r" using assms(2) by simp
  define e where "e = binaryExponent r"
  have b: "2 powi e \<le> r" "r < 2 powi (e + 1)"
    unfolding e_def by (rule binaryExponent_bounds[OF r])+
  have "(2::rat) powi e < 2 powi 0" using b(1) assms(3) by simp
  hence e0: "e < 0" by (rule pow2_less_exp)
  show ?thesis
  proof (cases "e \<le> - 2")
    case True
    hence "(2::rat) powi (e + 1) \<le> 2 powi (- 1)" by (intro power_int_increasing) simp_all
    hence "r < 1 / 2" using b(2) by simp
    thus ?thesis by simp
  next
    case False
    hence e1: "e = - 1" using e0 by simp
    define m where "m = roundToEven (r / 2 powi (- 53))"
    have mx: "max (binaryExponent r) (- 1022) - 52 = - 53" using e1 by (simp add: e_def)
    have "roundDouble r = (if 1024 \<le> binaryExponent (of_int m * 2 powi (- 53)) then PosInf
                            else Num (of_int m * 2 powi (- 53)))"
      unfolding m_def by (rule roundDouble_pos[OF r, unfolded mx])
    hence "r = of_int m * 2 powi (- 53)"
      using assms(1) unfolding isDouble_def by (simp split: if_splits)
    hence rm: "r = of_int m / 2 ^ 53" by (simp add: power_int_minus_divide)
    hence "(of_int m :: rat) < 2 ^ 53" using assms(3) by (simp add: pos_divide_less_eq)
    hence "(of_int m :: rat) < of_int (2 ^ 53)" by simp
    hence "m < 2 ^ 53" by (simp only: of_int_less_iff)
    hence "m \<le> 2 ^ 53 - 1" by simp
    hence "(of_int m :: rat) \<le> of_int (2 ^ 53 - 1)" by (simp only: of_int_le_iff)
    hence "(of_int m :: rat) \<le> 2 ^ 53 - 1" by simp
    hence "of_int m / (2::rat) ^ 53 \<le> (2 ^ 53 - 1) / 2 ^ 53" by (simp add: divide_right_mono)
    thus ?thesis unfolding rm by (simp add: diff_divide_distrib)
  qed
qed

text \<open>
  The index that one step draws: for a double \<open>r\<close> in \<open>[0,1)\<close> and a pool of \<open>n\<close>
  elements, \<open>floor(r * n)\<close> computed in doubles is an index of the pool.
\<close>

lemma pick_in_range:
  assumes "0 \<le> doubleValue r" and "doubleValue r < 1" and "0 < n" and "n < 2 ^ 53"
  shows "spec_pick r n < n"
    and "jsadd (jsfloor (doubleMul (doubleValue r) (of_int (int n - 1 - 0 + 1)))) (Num 0)
           = jsnat (spec_pick r n)"
proof -
  have d: "isDouble (doubleValue r)" using doubleValue[of r] by simp
  have b: "doubleValue r \<le> 1 - 1 / 2 ^ 53" by (rule double_below_one[OF d assms(1,2)])
  obtain v where v: "roundDouble (doubleValue r * of_nat n) = Num v" "0 \<le> v" "v < of_nat n"
    using round_product_below[OF assms(1) b assms(3,4)] by blast
  have f0: "0 \<le> \<lfloor>v\<rfloor>" using v(2) by simp
  have f1: "\<lfloor>v\<rfloor> < int n" using v(3) by (simp add: floor_less_iff)
  have p: "spec_pick r n = nat \<lfloor>v\<rfloor>" by (simp add: spec_pick_def doubleMul_def v(1))
  show "spec_pick r n < n" unfolding p using f0 f1 by linarith
  have e: "(of_int (int n - 1 - 0 + 1) :: rat) = of_nat n" by simp
  have "(of_nat (nat \<lfloor>v\<rfloor>) :: rat) = of_int \<lfloor>v\<rfloor>" using f0 by simp
  thus "jsadd (jsfloor (doubleMul (doubleValue r) (of_int (int n - 1 - 0 + 1)))) (Num 0)
           = jsnat (spec_pick r n)"
    unfolding e p by (simp add: doubleMul_def v(1))
qed

section \<open>The ranges of the permutation\<close>

lemma createRange_0: "createRange 0 (Some 0) None = []"
  by (simp add: createRange_def baseRange_def toNumber_def)

lemma createRange_1: "createRange 0 (Some 1) None = [0]"
  by (simp add: createRange_def baseRange_def toNumber_def)

section \<open>The handler reads one field\<close>

text \<open>
  Claim C10.  Two POST requests whose bodies are valid JSON and agree on
  \<open>body.imgURL\<close> get the same response, whatever else the bodies hold (the decoder
  being a function of the locator); and when the handler reconstructs, it calls
  \<open>imgReverser\<close> with the tile side \<open>200\<close> and the seed \<open>stay\<close>.
\<close>

theorem handler_depends_on_imgURL_only:
  assumes "reqMethod r1 = ''POST''" and "reqMethod r2 = ''POST''"
    and "body r1 = Some b1" and "body r2 = Some b2"
    and "imgURLOf b1 = imgURLOf b2"
  shows "handler seedrandom loadImage r1 = handler seedrandom loadImage r2
       \<and> (\<forall>u. imgURLOf b1 = Inr (Some u) \<and> truthy (Some u) \<and> \<not> toStringThrows u \<longrightarrow>
             handler seedrandom loadImage r1 =
               (case imgReverser seedrandom loadImage u (Num 200) ''stay'' of
                  None \<Rightarrow> None
                | Some (Inl e) \<Rightarrow> Some (Inl e)
                | Some (Inr data) \<Rightarrow>
                    Some (Inr \<lparr>status = 200, content = Png data,
                                contentType = Some ''image/png''\<rparr>)))"
  using assms by (simp add: handler_def)

theorem handler_depends_on_imgURL_only_witness:
  "imgURLOf (JObject [(''imgURL'', JString ''u''), (''squareSideLength'', JNumber 50)])
     = imgURLOf (JObject [(''seed'', JString ''go''), (''imgURL'', JString ''u'')])
   \<and> handler (constGenerator doubleHalf) (\<lambda>u. Inr \<lparr>imgWidth = 400, imgHeight = 300, pixels = ()\<rparr>)
        \<lparr>reqMethod = ''POST'',
         body = Some (JObject [(''imgURL'', JString ''u''), (''squareSideLength'', JNumber 50)])\<rparr>
     = handler (constGenerator doubleHalf) (\<lambda>u. Inr \<lparr>imgWidth = 400, imgHeight = 300, pixels = ()\<rparr>)
        \<lparr>reqMethod = ''POST'',
         body = Some (JObject [(''seed'', JString ''go''), (''imgURL'', JString ''u'')])\<rparr>"
  using handler_depends_on_imgURL_only
    [of "\<lparr>reqMethod = ''POST'',
          body = Some (JObject [(''imgURL'', JString ''u''), (''squareSideLength'', JNumber 50)])\<rparr>"
        "\<lparr>reqMethod = ''POST'',
          body = Some (JObject [(''seed'', JString ''go''), (''imgURL'', JString ''u'')])\<rparr>"
        "JObject [(''imgURL'', JString ''u''), (''squareSideLength'', JNumber 50)]"
        "JObject [(''seed'', JString ''go''), (''imgURL'', JString ''u'')]"
        "constGenerator doubleHalf" "\<lambda>u. Inr \<lparr>imgWidth = 400, imgHeight = 300, pixels = ()\<rparr>"]
  by (simp add: imgURLOf_def)

section \<open>The partition loop\<close>

text \<open>A finite bound makes the loop a fold over the indices below it.\<close>


lemma squaresLoop_fin:
  "squaresLoop W H S spr (Num n) i gs =
     Some (fold (\<lambda>j. pushSquare (makeSquare W H S spr j)) [i..<nat \<lceil>n\<rceil>] gs)"
proof (induction "nat \<lceil>n\<rceil> - i" arbitrary: i gs)
  case 0
  hence "\<not> of_nat i < n" by linarith
  thus ?case using 0 by (subst squaresLoop.simps) simp
next
  case (Suc k)
  hence lt: "of_nat i < n" by linarith
  have "i < nat \<lceil>n\<rceil>" using Suc by linarith
  hence u: "[i..<nat \<lceil>n\<rceil>] = i # [Suc i..<nat \<lceil>n\<rceil>]" by (simp add: upt_conv_Cons)
  have "k = nat \<lceil>n\<rceil> - Suc i" using Suc by linarith
  from Suc(1)[OF this] show ?case using lt u by (subst squaresLoop.simps) simp
qed

lemma firstKeys_snoc:
  "firstKeys (ts @ [t]) = (if keyOf t \<in> keyOf ` set ts then firstKeys ts else firstKeys ts @ [keyOf t])"
  by (simp add: firstKeys_def)

lemma set_firstKeys: "set (firstKeys ts) = keyOf ` set ts"
  by (simp add: firstKeys_def)

lemma distinct_firstKeys: "distinct (firstKeys ts)"
  by (simp add: firstKeys_def)

lemma map_of_groupsOf:
  "map_of (groupsOf ts) k = (if k \<in> keyOf ` set ts then Some (bucket k ts) else None)"
  by (simp add: groupsOf_def map_of_map_restrict restrict_map_def set_firstKeys)

lemma bucket_empty: "k \<notin> keyOf ` set ts \<Longrightarrow> bucket k ts = []"
  by (auto simp: bucket_def filter_empty_conv)

lemma pushSquare_groupsOf: "pushSquare t (groupsOf ts) = groupsOf (ts @ [t])"
proof (cases "keyOf t \<in> keyOf ` set ts")
  case True
  hence "pushSquare t (groupsOf ts) =
     map (\<lambda>(k', v). if k' = keyOf t then (k', v @ [t]) else (k', v)) (groupsOf ts)"
    by (simp add: pushSquare_def map_of_groupsOf Let_def)
  also have "\<dots> = groupsOf (ts @ [t])"
    using True by (auto simp: groupsOf_def firstKeys_snoc bucket_def)
  finally show ?thesis .
next
  case False
  hence "pushSquare t (groupsOf ts) =
     map (\<lambda>(k', v). if k' = keyOf t then (k', v @ [t]) else (k', v)) (groupsOf ts @ [(keyOf t, [])])"
    by (simp add: pushSquare_def map_of_groupsOf Let_def)
  also have "\<dots> = groupsOf (ts @ [t])"
    using False bucket_empty[OF False] by (auto simp: groupsOf_def firstKeys_snoc bucket_def set_firstKeys)
  finally show ?thesis .
qed

lemma fold_pushSquare: "fold pushSquare ts (groupsOf us) = groupsOf (us @ ts)"
  by (induction ts arbitrary: us) (simp_all add: pushSquare_groupsOf)

lemma fold_pushSquare_Nil: "fold pushSquare ts [] = groupsOf ts"
  using fold_pushSquare[of ts "[]"] by (simp add: groupsOf_def firstKeys_def)

section \<open>Integer arithmetic inside JavaScript numbers\<close>


lemma jsint_add: "jsadd (jsint a) (jsint b) = jsint (a + b)" by simp
lemma jsint_sub: "jssub (jsint a) (jsint b) = jsint (a - b)" by (simp add: jssub_def)
lemma jsint_mul: "jsmul (jsint a) (jsint b) = jsint (a * b)" by simp
lemma jsint_le: "jsle (jsint a) (jsint b) = (a \<le> b)" by simp
lemma jsint_lt: "jslt (jsint a) (jsint b) = (a < b)" by simp
lemma jsnat_int: "jsnat n = jsint (int n)" by simp
lemma jsint_0: "Num 0 = jsint 0" by simp
lemma jsint_floor_div: "b \<noteq> 0 \<Longrightarrow> jsfloor (jsdiv (jsint a) (jsint b)) = jsint (a div b)"
  by (simp add: floor_divide_of_int_eq)
lemma jsint_ceil_div: "b \<noteq> 0 \<Longrightarrow> jsceil (jsdiv (jsint a) (jsint b)) = jsint \<lceil>of_int a / (of_int b :: rat)\<rceil>"
  by simp
lemma jsint_if: "(if c then jsint a else jsint b) = jsint (if c then a else b)" by simp

lemma makeSquare_int:
  assumes "0 < C"
  shows "makeSquare (jsint W) (jsint H) (jsint S) (jsnat C) i = spec_tile W H S (i div C) (i mod C)"
proof -
  have C: "int C \<noteq> 0" using assms by simp
  have d: "int i div int C = int (i div C)" by (simp add: zdiv_int)
  have m: "int i - int (i div C) * int C = int (i mod C)"
    by (simp add: zmod_int zdiv_int minus_div_mult_eq_mod)
  have c: "\<And>S a W::int. S - (if a + S \<le> W then 0 else a + S - W) = min S (W - a)" by auto
  show ?thesis
    unfolding makeSquare_def Let_def spec_tile_def
    by (simp only: jsnat_int jsint_0 jsint_floor_div[OF C] jsint_mul jsint_sub jsint_add jsint_le jsint_if d m c)
qed



lemma fold_pushSquare_map:
  "fold (\<lambda>j. pushSquare (f j)) js [] = groupsOf (map f js)"
  using fold_pushSquare_Nil[of "map f js"] by (simp add: fold_map comp_def)

lemma partition_squares_int:
  assumes "S \<noteq> 0"
  shows "partition_squares (jsint W) (jsint H) (jsint S) =
     Some (groupsOf (map (makeSquare (jsint W) (jsint H) (jsint S) (jsint \<lceil>of_int W / (of_int S :: rat)\<rceil>))
        [0..<nat (\<lceil>of_int W / (of_int S :: rat)\<rceil> * \<lceil>of_int H / (of_int S :: rat)\<rceil>)]))"
proof -
  have "nat \<lceil>rat_of_int (\<lceil>of_int W / (of_int S :: rat)\<rceil> * \<lceil>of_int H / (of_int S :: rat)\<rceil>)\<rceil>
      = nat (\<lceil>of_int W / (of_int S :: rat)\<rceil> * \<lceil>of_int H / (of_int S :: rat)\<rceil>)"
    by (simp only: ceiling_of_int)
  thus ?thesis
    unfolding partition_squares_def Let_def
    by (simp only: jsint_ceil_div[OF assms] jsint_mul squaresLoop_fin fold_pushSquare_map)
qed

lemma ceil_pos:
  assumes "0 < (W::int)" "0 < (S::int)"
  shows "0 < \<lceil>of_int W / (of_int S :: rat)\<rceil>"
  using assms by simp

lemma grid_index:
  "map (\<lambda>i. f (i div C) (i mod C)) [0..<R * C] = concat (map (\<lambda>r. map (f r) [0..<C]) [0..<R])"
proof (induction R)
  case 0
  show ?case by simp
next
  case (Suc R)
  have "[0..<Suc R * C] = [0..<R * C] @ map (\<lambda>c. c + R * C) [0..<C]"
    using upt_add_eq_append[of 0 "R * C" C] by (simp add: map_add_upt add.commute)
  thus ?case using Suc by (simp add: comp_def)
qed

lemma partition_squares_grid:
  assumes "0 < W" "0 < H" "0 < S"
  shows "partition_squares (jsint W) (jsint H) (jsint S) = Some (groupsOf (spec_tiles W H S))"
proof -
  define C where "C = nat \<lceil>of_int W / (of_int S :: rat)\<rceil>"
  define R where "R = nat \<lceil>of_int H / (of_int S :: rat)\<rceil>"
  have C: "0 < C" "jsint \<lceil>of_int W / (of_int S :: rat)\<rceil> = jsnat C"
    using ceil_pos[OF assms(1,3)] by (simp_all add: C_def)
  have R: "0 < R" using ceil_pos[OF assms(2,3)] by (simp add: R_def)
  have n: "nat (\<lceil>of_int W / (of_int S :: rat)\<rceil> * \<lceil>of_int H / (of_int S :: rat)\<rceil>) = R * C"
    using ceil_pos[OF assms(1,3)] ceil_pos[OF assms(2,3)] by (simp add: C_def R_def nat_mult_distrib mult.commute)
  have "S \<noteq> 0" using assms by simp
  have ms: "makeSquare (jsint W) (jsint H) (jsint S) (jsnat C) = (\<lambda>i. spec_tile W H S (i div C) (i mod C))"
    using makeSquare_int[OF C(1), of W H S] by (intro ext)
  from partition_squares_int[OF \<open>S \<noteq> 0\<close>, of W H]
  have "partition_squares (jsint W) (jsint H) (jsint S) =
      Some (groupsOf (map (\<lambda>i. spec_tile W H S (i div C) (i mod C)) [0..<R * C]))"
    unfolding n C(2) ms .
  thus ?thesis by (simp only: grid_index spec_tiles_def C_def R_def)
qed

text \<open>
  Claim C3.  For a positive width, height and tile side the squares are visited in
  row-major order, \<open>ceil(H / S)\<close> rows of \<open>ceil(W / S)\<close> columns, the square at row
  \<open>r\<close> and column \<open>c\<close> being \<open>spec_tile W H S r c\<close>; the groups have distinct keys, one
  for each pair of width and height that occurs among the tiles, and the group of a pair
  holds the tiles of that width and height, in the order of the visit.
\<close>

theorem partition_row_major:
  assumes "0 < W" and "0 < H" and "0 < S"
  shows "\<exists>gs. partition_squares (jsint W) (jsint H) (jsint S) = Some gs
            \<and> map (makeSquare (jsint W) (jsint H) (jsint S) (jsceil (jsdiv (jsint W) (jsint S))))
                 [0..<nat \<lceil>of_int H / (of_int S :: rat)\<rceil> * nat \<lceil>of_int W / (of_int S :: rat)\<rceil>]
               = spec_tiles W H S
            \<and> distinct (map fst gs)
            \<and> fst ` set gs = (\<lambda>t. (width t, height t)) ` set (spec_tiles W H S)
            \<and> (\<forall>(k, v) \<in> set gs.
                  v = filter (\<lambda>t. (width t, height t) = k) (spec_tiles W H S))"
proof -
  define C where "C = nat \<lceil>of_int W / (of_int S :: rat)\<rceil>"
  define R where "R = nat \<lceil>of_int H / (of_int S :: rat)\<rceil>"
  have S: "S \<noteq> 0" using assms by simp
  have C: "0 < C" "jsint \<lceil>of_int W / (of_int S :: rat)\<rceil> = jsnat C"
    using ceil_pos[OF assms(1,3)] by (simp_all add: C_def)
  have ms: "makeSquare (jsint W) (jsint H) (jsint S) (jsnat C) = (\<lambda>i. spec_tile W H S (i div C) (i mod C))"
    using makeSquare_int[OF C(1), of W H S] by (intro ext)
  have v: "map (makeSquare (jsint W) (jsint H) (jsint S) (jsceil (jsdiv (jsint W) (jsint S)))) [0..<R * C]
      = spec_tiles W H S"
    unfolding jsint_ceil_div[OF S] C(2) ms spec_tiles_def by (simp only: grid_index C_def R_def)
  have g: "distinct (map fst (groupsOf (spec_tiles W H S)))"
    by (simp add: groupsOf_def comp_def distinct_firstKeys)
  have kd: "keyOf = (\<lambda>t. (width t, height t))" by (intro ext) (simp add: keyOf_def)
  have k: "fst ` set (groupsOf (spec_tiles W H S))
         = (\<lambda>t. (width t, height t)) ` set (spec_tiles W H S)"
    unfolding kd[symmetric] by (simp add: groupsOf_def image_image set_firstKeys)
  have b: "\<forall>(k, v) \<in> set (groupsOf (spec_tiles W H S)).
             v = filter (\<lambda>t. (width t, height t) = k) (spec_tiles W H S)"
    by (auto simp: groupsOf_def bucket_def keyOf_def)
  show ?thesis
    using partition_squares_grid[OF assms] v g k b unfolding C_def R_def by blast
qed

theorem partition_row_major_witness:
  "(0::int) < 450 \<and> (0::int) < 300 \<and> (0::int) < 200
   \<and> (\<exists>gs. partition_squares (jsint 450) (jsint 300) (jsint 200) = Some gs
            \<and> map (makeSquare (jsint 450) (jsint 300) (jsint 200) (jsceil (jsdiv (jsint 450) (jsint 200))))
                 [0..<nat \<lceil>of_int 300 / (of_int 200 :: rat)\<rceil> * nat \<lceil>of_int 450 / (of_int 200 :: rat)\<rceil>]
               = spec_tiles 450 300 200
            \<and> distinct (map fst gs)
            \<and> fst ` set gs = (\<lambda>t. (width t, height t)) ` set (spec_tiles 450 300 200)
            \<and> (\<forall>(k, v) \<in> set gs.
                  v = filter (\<lambda>t. (width t, height t) = k) (spec_tiles 450 300 200)))"
  using partition_row_major [of 450 300 200] by simp

section \<open>The squares cover the image\<close>


lemma count_buckets:
  assumes "distinct ks" "keyOf ` set ts \<subseteq> set ks"
  shows "length (filter P (concat (map (\<lambda>k. bucket k ts) ks))) = length (filter P ts)"
  using assms
proof (induction ks arbitrary: ts)
  case Nil
  thus ?case by simp
next
  case (Cons k ks)
  let ?ts' = "filter (\<lambda>t. keyOf t \<noteq> k) ts"
  have same: "map (\<lambda>k'. bucket k' ts) ks = map (\<lambda>k'. bucket k' ?ts') ks"
  proof (rule map_cong[OF refl])
    fix k' assume "k' \<in> set ks"
    hence "k' \<noteq> k" using Cons.prems(1) by auto
    thus "bucket k' ts = bucket k' ?ts'"
      unfolding bucket_def by (auto intro: filter_cong)
  qed
  have sub: "keyOf ` set ?ts' \<subseteq> set ks" using Cons.prems(2) by auto
  have d: "distinct ks" using Cons.prems(1) by simp
  have "length (filter P (concat (map (\<lambda>k. bucket k ts) (k # ks))))
      = length (filter P (bucket k ts)) + length (filter P (concat (map (\<lambda>k'. bucket k' ?ts') ks)))"
    by (simp add: same)
  also have "\<dots> = length (filter P (bucket k ts)) + length (filter P ?ts')"
    by (simp only: Cons.IH[OF d sub])
  also have "\<dots> = length (filter (\<lambda>t. keyOf t = k) (filter P ts))
                 + length (filter (\<lambda>t. \<not> keyOf t = k) (filter P ts))"
    by (simp add: bucket_def conj_commute)
  also have "\<dots> = length (filter P ts)"
    by (rule sum_length_filter_compl)
  finally show ?case .
qed

lemma count_groupsOf:
  "length (filter P (concat (map snd (groupsOf ts)))) = length (filter P ts)"
proof -
  have "map snd (groupsOf ts) = map (\<lambda>k. bucket k ts) (firstKeys ts)"
    by (simp add: groupsOf_def comp_def)
  thus ?thesis
    using count_buckets[OF distinct_firstKeys, of ts ts P] by (simp add: set_firstKeys)
qed

lemma filter_eq_upt: "filter (\<lambda>i. i = k) [0..<n] = (if k < n then [k] else [])"
  by (induction n) auto

lemma covers_spec_tile:
  assumes "0 < S" "0 \<le> px" "px < W" "0 \<le> py" "py < H"
  shows "covers (spec_tile W H S r c) px py \<longleftrightarrow> (int c = px div S \<and> int r = py div S)"
proof -
  have a: "\<And>p V n. 0 \<le> p \<Longrightarrow> p < V \<Longrightarrow>
      (int n * S \<le> p \<and> p < int n * S + min S (V - int n * S)) = (int n = p div S)"
  proof -
    fix p V :: int and n :: nat
    assume p: "0 \<le> p" "p < V"
    have "(int n * S \<le> p \<and> p < int n * S + min S (V - int n * S)) = (int n * S \<le> p \<and> p < int n * S + S)"
      using p by auto
    also have "\<dots> = (int n = p div S)"
    proof
      assume "int n * S \<le> p \<and> p < int n * S + S"
      hence "p div S = int n" using assms(1)
        by (intro int_div_pos_eq[where r = "p - int n * S"]) (auto simp: algebra_simps)
      thus "int n = p div S" by simp
    next
      assume e: "int n = p div S"
      have "p = p div S * S + p mod S" by simp
      moreover have "0 \<le> p mod S" "p mod S < S" using assms(1) by simp_all
      ultimately have "p div S * S \<le> p" "p < p div S * S + S" by linarith+
      then
      show "int n * S \<le> p \<and> p < int n * S + S" using e by simp
    qed
    finally show "(int n * S \<le> p \<and> p < int n * S + min S (V - int n * S)) = (int n = p div S)" .
  qed
  show ?thesis
    unfolding covers_def spec_tile_def
    using a[OF assms(2,3), of c] a[OF assms(4,5), of r]
    by (simp only: Square.simps jsint_add jsint_le jsint_lt) blast
qed



lemma div_less_ceil:
  assumes "0 < S" "0 \<le> p" "p < V"
  shows "nat (p div S) < nat \<lceil>of_int V / (of_int S :: rat)\<rceil>"
proof -
  have "p = p div S * S + p mod S" by simp
  moreover have "0 \<le> p mod S" using assms(1) by simp
  ultimately have "p div S * S \<le> p" by linarith
  hence "p div S * S < V" using assms(3) by simp
  hence "(of_int (p div S) :: rat) * of_int S < of_int V"
    by (metis of_int_less_iff of_int_mult)
  hence "(of_int (p div S) :: rat) < of_int V / of_int S"
    using assms(1) by (simp add: pos_less_divide_eq)
  hence "p div S < \<lceil>of_int V / (of_int S :: rat)\<rceil>" by (simp add: less_ceiling_iff)
  moreover have "0 \<le> p div S" using assms(1,2) by (simp add: pos_imp_zdiv_nonneg_iff)
  ultimately show ?thesis by linarith
qed

lemma index_unique:
  assumes "c0 < C"
  shows "(i mod C = c0 \<and> i div C = r0) \<longleftrightarrow> i = r0 * C + (c0::nat)"
proof
  assume "i mod C = c0 \<and> i div C = r0"
  thus "i = r0 * C + c0" by (metis div_mult_mod_eq)
next
  assume "i = r0 * C + c0"
  thus "i mod C = c0 \<and> i div C = r0" using assms by simp
qed

lemma count_spec_tiles:
  assumes "0 < W" "0 < H" "0 < S" "0 \<le> px" "px < W" "0 \<le> py" "py < H"
  shows "length (filter (\<lambda>t. covers t px py) (spec_tiles W H S)) = 1"
proof -
  define C where "C = nat \<lceil>of_int W / (of_int S :: rat)\<rceil>"
  define R where "R = nat \<lceil>of_int H / (of_int S :: rat)\<rceil>"
  define c0 where "c0 = nat (px div S)"
  define r0 where "r0 = nat (py div S)"
  have c0: "c0 < C" unfolding c0_def C_def by (rule div_less_ceil[OF assms(3,4,5)])
  have r0: "r0 < R" unfolding r0_def R_def by (rule div_less_ceil[OF assms(3,6,7)])
  have nn: "0 \<le> px div S" "0 \<le> py div S" using assms by (simp_all add: pos_imp_zdiv_nonneg_iff)
  have "r0 * C + c0 < r0 * C + C" using c0 by simp
  also have "\<dots> = Suc r0 * C" by simp
  also have "\<dots> \<le> R * C" using r0 by (intro mult_le_mono1) simp
  finally have i0: "r0 * C + c0 < R * C" .
  have tiles: "spec_tiles W H S = map (\<lambda>i. spec_tile W H S (i div C) (i mod C)) [0..<R * C]"
    unfolding spec_tiles_def C_def R_def by (simp only: grid_index)
  have P: "\<And>i. covers (spec_tile W H S (i div C) (i mod C)) px py = (i = r0 * C + c0)"
  proof -
    fix i
    have "covers (spec_tile W H S (i div C) (i mod C)) px py
        = (int (i mod C) = px div S \<and> int (i div C) = py div S)"
      by (rule covers_spec_tile[OF assms(3-7)])
    also have "\<dots> = (i mod C = c0 \<and> i div C = r0)"
      using nn unfolding c0_def r0_def by auto
    also have "\<dots> = (i = r0 * C + c0)" by (rule index_unique[OF c0])
    finally show "covers (spec_tile W H S (i div C) (i mod C)) px py = (i = r0 * C + c0)" .
  qed
  show ?thesis
    unfolding tiles filter_map comp_def P using i0 by (simp add: filter_eq_upt)
qed

lemma set_allSquares_groupsOf: "set (allSquares (groupsOf ts)) = set ts"
  by (auto simp: allSquares_def groupsOf_def bucket_def set_firstKeys)

lemma spec_tile_inside:
  assumes "0 < S" and "t \<in> set (spec_tiles W H S)" and "covers t px py"
  shows "0 \<le> px \<and> px < W \<and> 0 \<le> py \<and> py < H"
proof -
  from assms(2) obtain r c where
    r: "r < nat \<lceil>of_int H / (of_int S :: rat)\<rceil>" and c: "c < nat \<lceil>of_int W / (of_int S :: rat)\<rceil>"
    and t: "t = spec_tile W H S r c"
    by (auto simp: spec_tiles_def)
  have cv: "int c * S \<le> px" "px < int c * S + min S (W - int c * S)"
           "int r * S \<le> py" "py < int r * S + min S (H - int r * S)"
    using assms(3) unfolding t covers_def spec_tile_def
    by (simp_all only: Square.simps jsint_add jsint_le jsint_lt)
  have nn: "0 \<le> int c * S" "0 \<le> int r * S" using assms(1) by simp_all
  have "0 \<le> px" by (rule order_trans[OF nn(1) cv(1)])
  moreover have "0 \<le> py" by (rule order_trans[OF nn(2) cv(3)])
  moreover have "px < W" using cv(2) by (simp add: min_def split: if_splits)
  moreover have "py < H" using cv(4) by (simp add: min_def split: if_splits)
  ultimately show ?thesis by simp
qed

text \<open>
  Claim C5.  For a positive width, height and tile side, the squares that the partition
  produces cover the image exactly: every pixel of the image lies in exactly one of them,
  counted with multiplicity over all groups, and no square covers a pixel outside the
  image.
\<close>

theorem partition_covers_plane:
  assumes "0 < W" and "0 < H" and "0 < S"
  shows "\<exists>gs. partition_squares (jsint W) (jsint H) (jsint S) = Some gs
            \<and> (\<forall>px py. 0 \<le> px \<and> px < W \<and> 0 \<le> py \<and> py < H \<longrightarrow>
                  length (filter (\<lambda>t. covers t px py) (allSquares gs)) = 1)
            \<and> (\<forall>t \<in> set (allSquares gs). \<forall>px py. covers t px py \<longrightarrow>
                  0 \<le> px \<and> px < W \<and> 0 \<le> py \<and> py < H)"
proof -
  let ?gs = "groupsOf (spec_tiles W H S)"
  have a: "\<forall>px py. 0 \<le> px \<and> px < W \<and> 0 \<le> py \<and> py < H \<longrightarrow>
                  length (filter (\<lambda>t. covers t px py) (allSquares ?gs)) = 1"
    using count_spec_tiles[OF assms] by (simp add: allSquares_def count_groupsOf)
  have b: "\<forall>t \<in> set (allSquares ?gs). \<forall>px py. covers t px py \<longrightarrow>
                  0 \<le> px \<and> px < W \<and> 0 \<le> py \<and> py < H"
    using spec_tile_inside[OF assms(3)] unfolding set_allSquares_groupsOf by blast
  show ?thesis using partition_squares_grid[OF assms] a b by blast
qed

theorem partition_covers_plane_witness:
  "(0::int) < 450 \<and> (0::int) < 300 \<and> (0::int) < 200
   \<and> (0::int) \<le> 420 \<and> (420::int) < 450 \<and> (0::int) \<le> 250 \<and> (250::int) < 300
   \<and> (\<exists>gs. partition_squares (jsint 450) (jsint 300) (jsint 200) = Some gs
            \<and> length (filter (\<lambda>t. covers t 420 250) (allSquares gs)) = 1
            \<and> (\<forall>t \<in> set (allSquares gs). \<forall>px py. covers t px py \<longrightarrow>
                  0 \<le> px \<and> px < 450 \<and> 0 \<le> py \<and> py < 300))"
proof -
  obtain gs where g: "partition_squares (jsint 450) (jsint 300) (jsint 200) = Some gs"
    and a: "\<forall>px py. 0 \<le> px \<and> px < 450 \<and> 0 \<le> py \<and> py < 300 \<longrightarrow>
                  length (filter (\<lambda>t. covers t px py) (allSquares gs)) = 1"
    and b: "\<forall>t \<in> set (allSquares gs). \<forall>px py. covers t px py \<longrightarrow>
                  0 \<le> px \<and> px < 450 \<and> 0 \<le> py \<and> py < 300"
    using partition_covers_plane [of 450 300 200] by auto
  have "length (filter (\<lambda>t. covers t 420 250) (allSquares gs)) = 1"
    using a by simp
  thus ?thesis using g b by auto
qed

section \<open>The permutation follows the specified algorithm\<close>

lemma baseRangeLoop_left:
  "baseRangeLoop m start 1 False acc = acc @ map (\<lambda>j. start + int j) [0..<m]"
proof (induction m arbitrary: start acc)
  case 0
  show ?case by simp
next
  case (Suc m)
  have "map (\<lambda>j. start + int j) [0..<Suc m] = start # map (\<lambda>j. start + 1 + int j) [0..<m]"
  proof -
    have "[0..<Suc m] = 0 # map Suc [0..<m]" by (simp only: upt_conv_Cons[of 0 "Suc m"] map_Suc_upt)
    thus ?thesis by (simp add: comp_def del: upt_Suc)
  qed
  thus ?case by (simp add: Suc.IH del: upt_Suc)
qed

lemma createRange_upt: "createRange 0 (Some (int n)) None = map int [0..<n]"
proof (cases "n = 0")
  case True
  thus ?thesis by (simp add: createRange_def baseRange_def toNumber_def)
next
  case False
  hence "createRange 0 (Some (int n)) None = baseRangeLoop n 0 1 False []"
    by (simp add: createRange_def baseRange_def toNumber_def)
  thus ?thesis by (simp add: baseRangeLoop_left)
qed

lemma fold_initStep:
  "fold initStep [0..<n] \<lparr>shuffledArray = [], indexArray = [], draws = 0\<rparr>
     = \<lparr>shuffledArray = replicate n None, indexArray = [0..<n], draws = 0\<rparr>"
  by (induction n) (simp_all add: initStep_def replicate_append_same)

lemma set_splice: "set (splice xs start deleteCount) \<subseteq> set xs"
  unfolding splice_def Let_def by (auto dest: in_set_takeD in_set_dropD)

lemma shuffleStep_in_range:
  assumes "set (indexArray st) \<subseteq> {0..<length (shuffledArray st)}"
  shows "set (indexArray (shuffleStep rng array i st))
           \<subseteq> {0..<length (shuffledArray (shuffleStep rng array i st))}"
proof -
  have "length (shuffledArray (shuffleStep rng array i st)) = length (shuffledArray st)"
    by (simp add: shuffleStep_def Let_def split: option.split)
  moreover have "set (indexArray (shuffleStep rng array i st)) \<subseteq> set (indexArray st)"
    by (simp add: shuffleStep_def Let_def set_splice)
  ultimately show ?thesis using assms by auto
qed

text \<open>
  From the state that the first loop leaves (\<open>fold_initStep\<close>), whatever the generator
  draws, the second loop only meets indices of \<open>shuffledArray\<close>.
\<close>

lemma fold_shuffleStep_in_range:
  assumes "set (indexArray st) \<subseteq> {0..<length (shuffledArray st)}"
  shows "set (indexArray (fold (shuffleStep rng array) js st))
           \<subseteq> {0..<length (shuffledArray (fold (shuffleStep rng array) js st))}"
  using assms by (induction js arbitrary: st) (simp_all add: shuffleStep_in_range)

lemma shuffleStep_valid:
  assumes "0 \<le> doubleValue (rng (draws st))" and "doubleValue (rng (draws st)) < 1"
    and "indexArray st \<noteq> []" and "length (indexArray st) < 2 ^ 53"
  defines "pick \<equiv> spec_pick (rng (draws st)) (length (indexArray st))"
  shows "pick < length (indexArray st)"
    and "shuffleStep rng array i st =
          \<lparr>shuffledArray = (shuffledArray st)[indexArray st ! pick := Some (array ! i)],
           indexArray = take pick (indexArray st) @ drop (Suc pick) (indexArray st),
           draws = Suc (draws st)\<rparr>"
proof -
  let ?n = "length (indexArray st)"
  have n: "0 < ?n" using assms(3) by simp
  note pr = pick_in_range[OF assms(1,2) n assms(4), folded pick_def]
  show p: "pick < ?n" by (rule pr(1))
  have i: "jsIndexNum (indexArray st) (jsnat pick) = Some (indexArray st ! pick)"
    using p by (simp add: jsIndexNum_def jsIndex_def)
  have s: "splice (indexArray st) (relativeStart ?n (jsnat pick)) 1
         = take pick (indexArray st) @ drop (Suc pick) (indexArray st)"
    using p by (simp add: relativeStart_def splice_def Let_def min_def nat_add_distrib)
  show "shuffleStep rng array i st =
          \<lparr>shuffledArray = (shuffledArray st)[indexArray st ! pick := Some (array ! i)],
           indexArray = take pick (indexArray st) @ drop (Suc pick) (indexArray st),
           draws = Suc (draws st)\<rparr>"
    unfolding shuffleStep_def Let_def pr(2) i s by simp
qed

lemma map_upt_update:
  assumes "d < N"
  shows "(map f [0..<N])[d := v] = map (f(d := v)) [0..<N]"
  using assms by (intro nth_equalityI) (auto simp: nth_list_update)

lemma set_remove_nth:
  assumes "k < length xs"
  shows "set (take k xs @ drop (Suc k) xs) \<subseteq> set xs"
    and "length (take k xs @ drop (Suc k) xs) = length xs - 1"
    and "distinct xs \<Longrightarrow> set (take k xs @ drop (Suc k) xs) = set xs - {xs ! k}"
    and "distinct xs \<Longrightarrow> distinct (take k xs @ drop (Suc k) xs)"
proof -
  have xs: "xs = take k xs @ xs ! k # drop (Suc k) xs" using assms by (rule id_take_nth_drop)
  show "set (take k xs @ drop (Suc k) xs) \<subseteq> set xs"
    by (auto dest: in_set_takeD in_set_dropD)
  show "length (take k xs @ drop (Suc k) xs) = length xs - 1" using assms by simp
  {
    assume d: "distinct xs"
    hence "distinct (take k xs @ xs ! k # drop (Suc k) xs)" using xs by simp
    hence n: "xs ! k \<notin> set (take k xs)" "xs ! k \<notin> set (drop (Suc k) xs)"
      and dd: "distinct (take k xs @ drop (Suc k) xs)" by auto
    have "set xs = set (take k xs @ xs ! k # drop (Suc k) xs)" using xs by simp
    hence "set xs = insert (xs ! k) (set (take k xs @ drop (Suc k) xs))" by simp
    thus "set (take k xs @ drop (Suc k) xs) = set xs - {xs ! k}" using n by auto
    show "distinct (take k xs @ drop (Suc k) xs)" by (rule dd)
  }
qed

lemma shuffle_sim:
  assumes valid: "\<forall>k. 0 \<le> doubleValue (rng k) \<and> doubleValue (rng k) < 1"
    and bound: "N < 2 ^ 53"
    and "draws st = i" and "indexArray st = pool"
    and "shuffledArray st = map (\<lambda>d. map_option int (result d)) [0..<N]"
    and "set pool \<subseteq> {0..<N}" and "length pool + i = N"
  shows "shuffledArray (fold (shuffleStep rng (map int [0..<N])) [i..<N] st)
           = map (\<lambda>d. map_option int (spec_loop rng [i..<N] pool result d)) [0..<N]
       \<and> draws (fold (shuffleStep rng (map int [0..<N])) [i..<N] st) = N"
  using assms(3-)
proof (induction "N - i" arbitrary: i st pool result)
  case 0
  hence "i = N" by simp
  thus ?case using 0 by simp
next
  case (Suc m)
  have iN: "i < N" using Suc.hyps(2) by simp
  hence ne: "indexArray st \<noteq> []" using Suc.prems(2,5) by auto
  define pick where "pick = spec_pick (rng i) (length pool)"
  have v: "0 \<le> doubleValue (rng (draws st))" "doubleValue (rng (draws st)) < 1"
    using valid by simp_all
  have lt: "length (indexArray st) < 2 ^ 53" using Suc.prems(2,5) bound by simp
  note step1 = shuffleStep_valid(1)[where rng = rng and st = st,
      OF v ne lt, unfolded Suc.prems(1,2), folded pick_def]
  note step2 = shuffleStep_valid(2)[where rng = rng and st = st and array = "map int [0..<N]" and i = i,
      OF v ne lt, unfolded Suc.prems(1,2), folded pick_def]
  have pk: "pick < length pool" by (rule step1)
  define st1 where "st1 = shuffleStep rng (map int [0..<N]) i st"
  define pool1 where "pool1 = take pick pool @ drop (Suc pick) pool"
  have dN: "pool ! pick < N" using pk Suc.prems(4) by (auto simp: subset_eq)
  have a1: "draws st1 = Suc i" unfolding st1_def step2 by simp
  have a2: "indexArray st1 = pool1" unfolding st1_def step2 pool1_def by simp
  have a3: "shuffledArray st1 = map (\<lambda>d. map_option int ((result(pool ! pick \<mapsto> i)) d)) [0..<N]"
    unfolding st1_def step2 using iN dN
    by (simp add: Suc.prems(3) map_upt_update fun_upd_def)
  have a4: "set pool1 \<subseteq> {0..<N}"
    unfolding pool1_def using set_remove_nth(1)[OF pk] Suc.prems(4) by blast
  have a5: "length pool1 + Suc i = N"
    unfolding pool1_def using set_remove_nth(2)[OF pk] Suc.prems(5) pk by simp
  have m: "m = N - Suc i" using Suc.hyps(2) by simp
  have u: "[i..<N] = i # [Suc i..<N]" using iN by (simp add: upt_conv_Cons)
  have sl: "spec_loop rng [i..<N] pool result = spec_loop rng [Suc i..<N] pool1 (result(pool ! pick \<mapsto> i))"
    unfolding u by (simp add: Let_def pick_def pool1_def)
  have f: "fold (shuffleStep rng (map int [0..<N])) [i..<N] st
         = fold (shuffleStep rng (map int [0..<N])) [Suc i..<N] st1"
    unfolding u st1_def by simp
  show ?case
    unfolding sl f
    by (rule Suc.hyps(1)[where result = "result(pool ! pick \<mapsto> i)", OF m a1 a2 a3 a4 a5])
qed

lemma unShuffleRun_spec:
  assumes "\<forall>k. 0 \<le> doubleValue (seedrandom seed k) \<and> doubleValue (seedrandom seed k) < 1"
    and "N < 2 ^ 53"
  shows "shuffledArray (unShuffleRun seedrandom (map int [0..<N]) seed)
            = map (map_option int) (spec_permute (seedrandom seed) N)"
    and "draws (unShuffleRun seedrandom (map int [0..<N]) seed) = N"
proof -
  let ?st = "\<lparr>shuffledArray = replicate N None, indexArray = [0..<N], draws = 0\<rparr> :: int shuffleState"
  have r: "replicate N None = map (\<lambda>d. map_option int (Map.empty d)) [0..<N]"
    by (simp add: map_replicate_const)
  have "shuffledArray ?st = map (\<lambda>d. map_option int (Map.empty d)) [0..<N]" using r by simp
  from shuffle_sim[where rng = "seedrandom seed" and st = ?st and i = 0 and pool = "[0..<N]"
        and result = Map.empty and N = N, OF assms _ _ this]
  have s: "shuffledArray (fold (shuffleStep (seedrandom seed) (map int [0..<N])) [0..<N] ?st)
           = map (\<lambda>d. map_option int (spec_loop (seedrandom seed) [0..<N] [0..<N] Map.empty d)) [0..<N]"
     and d: "draws (fold (shuffleStep (seedrandom seed) (map int [0..<N])) [0..<N] ?st) = N"
    by simp_all
  show "shuffledArray (unShuffleRun seedrandom (map int [0..<N]) seed)
            = map (map_option int) (spec_permute (seedrandom seed) N)"
    unfolding unShuffleRun_def Let_def spec_permute_def using s by (simp add: fold_initStep comp_def)
  show "draws (unShuffleRun seedrandom (map int [0..<N]) seed) = N"
    unfolding unShuffleRun_def Let_def using d by (simp add: fold_initStep)
qed

text \<open>
  Claim C9.  For every seed, \<open>permute(0, seed)\<close> is the empty sequence and draws
  nothing; \<open>permute(1, seed)\<close> makes exactly one draw and, the drawn value being in
  \<open>[0,1)\<close> as the generator promises, returns \<open>[0]\<close>.
\<close>

theorem permute_edge_cases:
  assumes "0 \<le> doubleValue (seedrandom seed 0)" and "doubleValue (seedrandom seed 0) < 1"
  shows "permute seedrandom 0 seed = Some []
       \<and> permuteDraws seedrandom 0 seed = 0
       \<and> permute seedrandom 1 seed = Some [Some 0]
       \<and> permuteDraws seedrandom 1 seed = 1"
proof -
  let ?st = "\<lparr>shuffledArray = [None], indexArray = [0], draws = 0\<rparr> :: int shuffleState"
  have p: "spec_pick (seedrandom seed 0) (length (indexArray ?st)) = 0"
    using shuffleStep_valid(1)[where rng = "seedrandom seed" and st = ?st] assms by simp
  have s: "shuffleStep (seedrandom seed) [0] 0 ?st
         = \<lparr>shuffledArray = [Some 0], indexArray = [], draws = 1\<rparr>"
    using shuffleStep_valid(2)[where rng = "seedrandom seed" and st = ?st and array = "[0::int]"
        and i = 0] assms p
    by simp
  show ?thesis
    by (simp add: permute_def permuteDraws_def unShuffle_def unShuffleRun_def createRange_0
        createRange_1 initStep_def s)
qed

theorem permute_edge_cases_witness:
  "0 \<le> doubleValue (constGenerator doubleHalf ''stay'' 0)
     \<and> doubleValue (constGenerator doubleHalf ''stay'' 0) < 1
     \<and> permute (constGenerator doubleHalf) 0 ''stay'' = Some []
     \<and> permuteDraws (constGenerator doubleHalf) 0 ''stay'' = 0
     \<and> permute (constGenerator doubleHalf) 1 ''stay'' = Some [Some 0]
     \<and> permuteDraws (constGenerator doubleHalf) 1 ''stay'' = 1"
  using permute_edge_cases [of "constGenerator doubleHalf" "''stay''"]
  by (simp add: constGenerator_def doubleHalf.rep_eq)

text \<open>
  Claim C1.  For every \<open>N\<close> below \<open>2^53\<close> (an array holds fewer than \<open>2^32\<close> elements)
  and every seed whose stream of doubles stays in \<open>[0,1)\<close>, \<open>permute(N, seed)\<close> is the
  result of the specified algorithm (\<open>spec_permute\<close>), slot by slot, and it draws once
  for each source.
\<close>

theorem permute_follows_spec:
  assumes "\<forall>k. 0 \<le> doubleValue (seedrandom seed k) \<and> doubleValue (seedrandom seed k) < 1"
    and "N < 2 ^ 53"
  shows "permute seedrandom N seed = Some (map (map_option int) (spec_permute (seedrandom seed) N))
       \<and> permuteDraws seedrandom N seed = N"
  using unShuffleRun_spec[where seedrandom = seedrandom and seed = seed and N = N, OF assms]
  by (simp add: permute_def permuteDraws_def unShuffle_def createRange_upt)

text \<open>
  The witness draws \<open>0.3333333333333333\<close> every time: the product with the length \<open>3\<close>
  rounds to \<open>1\<close>, and the permutation of three is \<open>[1, 0, 2]\<close>.
\<close>

theorem permute_follows_spec_witness:
  "(\<forall>k. 0 \<le> doubleValue (constGenerator doubleThird ''stay'' k)
         \<and> doubleValue (constGenerator doubleThird ''stay'' k) < 1)
   \<and> (3::nat) < 2 ^ 53
   \<and> permute (constGenerator doubleThird) 3 ''stay''
       = Some (map (map_option int) (spec_permute (constGenerator doubleThird ''stay'') 3))
   \<and> permuteDraws (constGenerator doubleThird) 3 ''stay'' = 3
   \<and> permute (constGenerator doubleThird) 3 ''stay'' = Some [Some 1, Some 0, Some 2]"
proof -
  have v: "\<forall>k. 0 \<le> doubleValue (constGenerator doubleThird ''stay'' k)
         \<and> doubleValue (constGenerator doubleThird ''stay'' k) < 1"
    by (simp add: constGenerator_def doubleThird.rep_eq)
  have n: "(3::nat) < 2 ^ 53" by simp
  have c: "permute (constGenerator doubleThird) 3 ''stay'' = Some [Some 1, Some 0, Some 2]"
    by code_simp
  show ?thesis
    using v n c permute_follows_spec
      [where seedrandom = "constGenerator doubleThird" and seed = "''stay''" and N = 3, OF v n]
    by simp
qed

section \<open>The permutation is a bijection\<close>

lemma spec_loop_inv:
  assumes valid: "\<forall>k. 0 \<le> doubleValue (rng k) \<and> doubleValue (rng k) < 1"
    and bound: "N < 2 ^ 53"
    and "distinct pool" and "set pool \<subseteq> {0..<N}" and "length pool + i = N"
    and "dom result = {0..<N} - set pool"
    and "\<forall>d v. result d = Some v \<longrightarrow> v < i"
    and "\<forall>d d' v. result d = Some v \<and> result d' = Some v \<longrightarrow> d = d'"
  shows "dom (spec_loop rng [i..<N] pool result) = {0..<N}
       \<and> (\<forall>d v. spec_loop rng [i..<N] pool result d = Some v \<longrightarrow> v < N)
       \<and> (\<forall>d d' v. spec_loop rng [i..<N] pool result d = Some v
                   \<and> spec_loop rng [i..<N] pool result d' = Some v \<longrightarrow> d = d')"
  using assms(3-)
proof (induction "N - i" arbitrary: i pool result)
  case 0
  have "i = N" using 0(1,4) by arith
  moreover have "length pool = 0" using 0(1,4) by arith
  hence "pool = []" by simp
  ultimately show ?case using 0(5,6,7) by simp
next
  case (Suc m)
  have iN: "i < N" using Suc.hyps(2) by simp
  hence ne: "pool \<noteq> []" using Suc.prems(3) by auto
  define pick where "pick = spec_pick (rng i) (length pool)"
  define pool1 where "pool1 = take pick pool @ drop (Suc pick) pool"
  define dest where "dest = pool ! pick"
  have pk: "pick < length pool"
  proof -
    have "0 < length pool" using ne by simp
    moreover have "length pool < 2 ^ 53" using Suc.prems(3) bound by simp
    ultimately show ?thesis unfolding pick_def using valid by (intro pick_in_range(1)) simp_all
  qed
  have dp: "dest \<in> set pool" unfolding dest_def using pk by simp
  hence dN: "dest < N" using Suc.prems(2) by auto
  have b1: "distinct pool1" unfolding pool1_def by (rule set_remove_nth(4)[OF pk Suc.prems(1)])
  have sp: "set pool1 = set pool - {dest}"
    unfolding pool1_def dest_def by (rule set_remove_nth(3)[OF pk Suc.prems(1)])
  have b2: "set pool1 \<subseteq> {0..<N}" using sp Suc.prems(2) by auto
  have b3: "length pool1 + Suc i = N"
    unfolding pool1_def using set_remove_nth(2)[OF pk] Suc.prems(3) pk by simp
  have b4: "dom (result(dest \<mapsto> i)) = {0..<N} - set pool1"
    using Suc.prems(4) sp dN by auto
  have b5: "\<forall>d v. (result(dest \<mapsto> i)) d = Some v \<longrightarrow> v < Suc i"
    using Suc.prems(5) by (auto simp: less_Suc_eq)
  have b6: "\<forall>d d' v. (result(dest \<mapsto> i)) d = Some v \<and> (result(dest \<mapsto> i)) d' = Some v \<longrightarrow> d = d'"
    using Suc.prems(5,6) by (auto split: if_splits)
  have m: "m = N - Suc i" using Suc.hyps(2) by simp
  have u: "[i..<N] = i # [Suc i..<N]" using iN by (simp add: upt_conv_Cons)
  have sl: "spec_loop rng [i..<N] pool result = spec_loop rng [Suc i..<N] pool1 (result(dest \<mapsto> i))"
    unfolding u by (simp add: Let_def pick_def pool1_def dest_def)
  show ?case
    unfolding sl
    by (rule Suc.hyps(1)[where result = "result(dest \<mapsto> i)", OF m b1 b2 b3 b4 b5 b6])
qed

lemma spec_permute_bijection:
  assumes "\<forall>k. 0 \<le> doubleValue (rng k) \<and> doubleValue (rng k) < 1" and "N < 2 ^ 53"
  shows "\<exists>p. spec_permute rng N = map Some p \<and> length p = N \<and> distinct p \<and> set p = {0..<N}"
proof -
  define final where "final = spec_loop rng [0..<N] [0..<N] Map.empty"
  have pre: "distinct [0..<N]" "set [0..<N] \<subseteq> {0..<N}" "length [0..<N] + 0 = N"
    "dom (Map.empty :: nat \<rightharpoonup> nat) = {0..<N} - set [0..<N]"
    "\<forall>d v. (Map.empty :: nat \<rightharpoonup> nat) d = Some v \<longrightarrow> v < 0"
    "\<forall>d d' v. (Map.empty :: nat \<rightharpoonup> nat) d = Some v \<and> Map.empty d' = Some v \<longrightarrow> d = d'"
    by simp_all
  note inv0 = spec_loop_inv[where rng = rng and pool = "[0..<N]" and N = N and i = 0
        and result = Map.empty, OF assms pre, folded final_def]
  have inv: "dom final = {0..<N}" "\<forall>d v. final d = Some v \<longrightarrow> v < N"
    "\<forall>d d' v. final d = Some v \<and> final d' = Some v \<longrightarrow> d = d'"
    using inv0 by blast+
  define p where "p = map (\<lambda>d. the (final d)) [0..<N]"
  have some: "\<And>d. d < N \<Longrightarrow> final d = Some (the (final d))"
  proof -
    fix d assume "d < N"
    hence "d \<in> dom final" using inv(1) by simp
    then obtain v where "final d = Some v" by blast
    thus "final d = Some (the (final d))" by simp
  qed
  have "\<forall>d \<in> set [0..<N]. final d = Some (the (final d))"
    using some by (intro ballI) simp
  hence "map final [0..<N] = map (\<lambda>d. Some (the (final d))) [0..<N]"
    by (simp only: map_eq_conv)
  hence e: "spec_permute rng N = map Some p"
    unfolding spec_permute_def p_def final_def[symmetric] by (simp only: map_map comp_def)
  have l: "length p = N" by (simp add: p_def)
  have "inj_on (\<lambda>d. the (final d)) {0..<N}"
  proof (rule inj_onI)
    fix a b assume ab: "a \<in> {0..<N}" "b \<in> {0..<N}" "the (final a) = the (final b)"
    hence "final a = Some (the (final a))" "final b = Some (the (final a))"
      using some[of a] some[of b] by auto
    thus "a = b" using inv(3) by blast
  qed
  hence d: "distinct p" unfolding p_def by (simp add: distinct_map)
  have sub: "set p \<subseteq> {0..<N}"
  proof
    fix v assume "v \<in> set p"
    then obtain d where "d < N" "v = the (final d)" unfolding p_def by auto
    hence "final d = Some v" using some[of d] by auto
    thus "v \<in> {0..<N}" using inv(2) by auto
  qed
  have "card (set p) = N" using d l by (simp add: distinct_card)
  hence "set p = {0..<N}" using sub by (intro card_subset_eq) simp_all
  thus ?thesis using e l d by blast
qed

text \<open>
  Claim C2.  For every \<open>N\<close> below \<open>2^53\<close> (an array holds fewer than \<open>2^32\<close> elements)
  and every seed whose stream of doubles stays in \<open>[0,1)\<close>, the sequence
  \<open>permute(N, seed)\<close> has length \<open>N\<close> and holds every integer of \<open>[0, N)\<close> exactly once:
  it is a bijection on \<open>[0, N)\<close>.
\<close>

theorem permute_bijection:
  assumes "\<forall>k. 0 \<le> doubleValue (seedrandom seed k) \<and> doubleValue (seedrandom seed k) < 1"
    and "N < 2 ^ 53"
  shows "\<exists>p. permute seedrandom N seed = Some (map (\<lambda>v. Some (int v)) p)
            \<and> length p = N \<and> distinct p \<and> set p = {0..<N}
            \<and> bij_betw (\<lambda>d. p ! d) {0..<N} {0..<N}"
proof -
  obtain p where p: "spec_permute (seedrandom seed) N = map Some p" "length p = N"
      "distinct p" "set p = {0..<N}"
    using spec_permute_bijection[where rng = "seedrandom seed" and N = N, OF assms] by blast
  have "permute seedrandom N seed = Some (map (\<lambda>v. Some (int v)) p)"
    using unShuffleRun_spec(1)[where seedrandom = seedrandom and seed = seed and N = N, OF assms] p(1)
    by (simp add: permute_def unShuffle_def createRange_upt comp_def)
  moreover have "bij_betw (\<lambda>d. p ! d) {0..<N} {0..<N}"
  proof -
    have "bij_betw ((!) p) {0..<N} {0..<N}"
      by (rule bij_betw_nth[OF p(3)]) (simp_all add: p(2,4) lessThan_atLeast0)
    thus ?thesis by simp
  qed
  ultimately show ?thesis using p by blast
qed

theorem permute_bijection_witness:
  "(\<forall>k. 0 \<le> doubleValue (constGenerator doubleThird ''stay'' k)
         \<and> doubleValue (constGenerator doubleThird ''stay'' k) < 1)
   \<and> (3::nat) < 2 ^ 53
   \<and> (\<exists>p. permute (constGenerator doubleThird) 3 ''stay'' = Some (map (\<lambda>v. Some (int v)) p)
            \<and> length p = 3 \<and> distinct p \<and> set p = {0..<3}
            \<and> bij_betw (\<lambda>d. p ! d) {0..<3} {0..<3})"
proof -
  have v: "\<forall>k. 0 \<le> doubleValue (constGenerator doubleThird ''stay'' k)
         \<and> doubleValue (constGenerator doubleThird ''stay'' k) < 1"
    by (simp add: constGenerator_def doubleThird.rep_eq)
  have n: "(3::nat) < 2 ^ 53" by simp
  show ?thesis
    using v n permute_bijection
      [where seedrandom = "constGenerator doubleThird" and seed = "''stay''" and N = 3, OF v n]
    by simp
qed

section \<open>The geometry of a group\<close>

text \<open>
  A group of the partition is a grid: the squares of some rows and some columns of the
  tile grid, row after row.  Squares of one row share \<open>y\<close>, and rows differ in \<open>y\<close>.
\<close>

lemma filter_grid:
  assumes "\<And>r c. keyOf (f r c) = (wd c, ht r)"
  shows "bucket (w, h) (concat (map (\<lambda>r. map (f r) cs) rs))
       = concat (map (\<lambda>r. map (f r) (filter (\<lambda>c. wd c = w) cs)) (filter (\<lambda>r. ht r = h) rs))"
proof (induction rs)
  case Nil
  show ?case by (simp add: bucket_def)
next
  case (Cons r rs)
  have "filter (\<lambda>t. keyOf t = (w, h)) (map (f r) cs)
      = (if ht r = h then map (f r) (filter (\<lambda>c. wd c = w) cs) else [])"
    by (simp add: filter_map comp_def assms)
  thus ?case using Cons by (simp add: bucket_def)
qed

lemma colsLoop_same:
  assumes "\<forall>t \<in> set xs. Square.y t = Num a"
  shows "colsLoop (Some (Num a)) i (xs @ rest) = colsLoop (Some (Num a)) (i + length xs) rest"
  using assms by (induction xs arbitrary: i) (simp_all add: jsne_def)

lemma colsLoop_grid:
  assumes "\<And>r c. Square.y (f r c) = Num (yf r)" and "inj_on yf (set rs)" and "distinct rs"
    and "cs \<noteq> []" and "rs \<noteq> []"
  shows "colsLoop None 0 (concat (map (\<lambda>r. map (f r) cs) rs)) = length cs"
proof -
  obtain r0 rs' where rs: "rs = r0 # rs'" using assms(5) by (cases rs) auto
  obtain c0 cs' where cs: "cs = c0 # cs'" using assms(4) by (cases cs) auto
  let ?rest = "concat (map (\<lambda>r. map (f r) cs) rs')"
  have same: "\<forall>t \<in> set (map (f r0) cs'). Square.y t = Num (yf r0)" by (simp add: assms(1))
  have "colsLoop None 0 (concat (map (\<lambda>r. map (f r) cs) rs))
      = colsLoop (Some (Num (yf r0))) (Suc 0) (map (f r0) cs' @ ?rest)"
    by (simp add: rs cs assms(1) jsne_def)
  also have "\<dots> = colsLoop (Some (Num (yf r0))) (Suc 0 + length (map (f r0) cs')) ?rest"
    by (rule colsLoop_same[OF same])
  also have "\<dots> = length cs"
  proof (cases rs')
    case Nil
    thus ?thesis by (simp add: cs)
  next
    case (Cons r1 rs'')
    have "r1 \<noteq> r0" using assms(3) rs Cons by auto
    hence "yf r1 \<noteq> yf r0" using assms(2) rs Cons by (auto simp: inj_on_def)
    thus ?thesis by (simp add: Cons cs assms(1) jsne_def)
  qed
  finally show ?thesis .
qed

lemma takeWhile_grid:
  assumes "\<And>r c. Square.y (f r c) = Num (yf r)" and "inj_on yf (set rs)" and "distinct rs"
    and "cs \<noteq> []" and "rs \<noteq> []"
  shows "takeWhile (\<lambda>t. Square.y t = Square.y (hd (concat (map (\<lambda>r. map (f r) cs) rs))))
            (concat (map (\<lambda>r. map (f r) cs) rs)) = map (f (hd rs)) cs"
proof -
  obtain r0 rs' where rs: "rs = r0 # rs'" using assms(5) by (cases rs) auto
  obtain c0 cs' where cs: "cs = c0 # cs'" using assms(4) by (cases cs) auto
  let ?rest = "concat (map (\<lambda>r. map (f r) cs) rs')"
  have hd: "Square.y (hd (concat (map (\<lambda>r. map (f r) cs) rs))) = Num (yf r0)"
    by (simp add: rs cs assms(1))
  have all: "\<forall>t \<in> set (map (f r0) cs). Square.y t = Num (yf r0)" by (simp add: assms(1))
  have stop: "?rest = [] \<or> Square.y (hd ?rest) \<noteq> Num (yf r0)"
  proof (cases rs')
    case Nil
    thus ?thesis by simp
  next
    case (Cons r1 rs'')
    have "r1 \<noteq> r0" using assms(3) rs Cons by auto
    hence "yf r1 \<noteq> yf r0" using assms(2) rs Cons by (auto simp: inj_on_def)
    thus ?thesis by (simp add: Cons cs assms(1))
  qed
  have "takeWhile (\<lambda>t. Square.y t = Num (yf r0)) (map (f r0) cs @ ?rest) = map (f r0) cs"
  proof (cases "?rest")
    case Nil
    thus ?thesis using all by (simp del: concat_eq_Nil_conv)
  next
    case (Cons t ts)
    hence n: "Square.y t \<noteq> Num (yf r0)" using stop by simp
    have "takeWhile (\<lambda>t. Square.y t = Num (yf r0)) (map (f r0) cs @ t # ts)
        = map (f r0) cs @ takeWhile (\<lambda>t. Square.y t = Num (yf r0)) (t # ts)"
      using all by (intro takeWhile_append2) auto
    thus ?thesis using n by (simp add: Cons)
  qed
  thus ?thesis unfolding hd by (simp add: rs)
qed

lemma getGroup_grid:
  assumes "\<And>r c. Square.y (f r c) = Num (yf r)" and "inj_on yf (set rs)" and "distinct rs"
    and "cs \<noteq> []" and "rs \<noteq> []"
  defines "v \<equiv> concat (map (\<lambda>r. map (f r) cs) rs)"
  shows "getGroup v = Inr \<lparr>slices = length rs * length cs, cols = length cs,
            rows = jsnat (length rs), Group.x = Square.x (hd v), Group.y = Square.y (hd v)\<rparr>"
    and "length v = length rs * length cs"
    and "length (takeWhile (\<lambda>t. Square.y t = Square.y (hd v)) v) = length cs"
proof -
  have len: "length v = length rs * length cs"
    unfolding v_def by (induction rs) (simp_all add: )
  show "length v = length rs * length cs" by (rule len)
  have ne: "v \<noteq> []" using len assms(4,5) by auto
  have c: "getColsInGroup v = length cs"
  proof (cases "length v = 1")
    case True
    hence "length cs = 1" using len by simp
    thus ?thesis using True by (simp add: getColsInGroup_def)
  next
    case False
    thus ?thesis unfolding getColsInGroup_def v_def using colsLoop_grid[OF assms(1-5)] by simp
  qed
  have q: "jsdiv (jsnat (length rs * length cs)) (jsnat (length cs)) = jsnat (length rs)"
    using assms(4) by simp
  obtain g0 gr where v: "v = g0 # gr" using ne by (cases v) auto
  show "getGroup v = Inr \<lparr>slices = length rs * length cs, cols = length cs,
            rows = jsnat (length rs), Group.x = Square.x (hd v), Group.y = Square.y (hd v)\<rparr>"
    unfolding getGroup_def c len using q assms(4) by (simp add: v Let_def)
  show "length (takeWhile (\<lambda>t. Square.y t = Square.y (hd v)) v) = length cs"
    unfolding v_def using takeWhile_grid[OF assms(1-5)] by simp
qed

lemma groupsOf_member:
  assumes "(k, v) \<in> set (groupsOf ts)"
  shows "v = bucket k ts" and "v \<noteq> []"
proof -
  from assms have k: "k \<in> keyOf ` set ts" and v: "v = bucket k ts"
    by (auto simp: groupsOf_def set_firstKeys)
  show "v = bucket k ts" by (rule v)
  from k obtain t where "t \<in> set ts" "keyOf t = k" by auto
  hence "t \<in> set (bucket k ts)" by (simp add: bucket_def)
  thus "v \<noteq> []" using v by auto
qed

lemma spec_group_geometry:
  assumes "0 < S" and "(k, v) \<in> set (groupsOf (spec_tiles W H S))"
  shows "\<exists>nr nc. 0 < nr \<and> 0 < nc \<and> length v = nr * nc
          \<and> getGroup v = Inr \<lparr>slices = nr * nc, cols = nc, rows = jsnat nr,
                              Group.x = Square.x (hd v), Group.y = Square.y (hd v)\<rparr>
          \<and> length (takeWhile (\<lambda>t. Square.y t = Square.y (hd v)) v) = nc"
proof -
  define C where "C = nat \<lceil>of_int W / (of_int S :: rat)\<rceil>"
  define R where "R = nat \<lceil>of_int H / (of_int S :: rat)\<rceil>"
  obtain w h where k: "k = (w, h)" by (cases k)
  define wd where "wd = (\<lambda>c::nat. jsint (min S (W - int c * S)))"
  define ht where "ht = (\<lambda>r::nat. jsint (min S (H - int r * S)))"
  define yf where "yf = (\<lambda>r::nat. (of_int (int r * S) :: rat))"
  define cs where "cs = filter (\<lambda>c. wd c = w) [0..<C]"
  define rs where "rs = filter (\<lambda>r. ht r = h) [0..<R]"
  have key: "\<And>r c. keyOf (spec_tile W H S r c) = (wd c, ht r)"
    by (simp add: keyOf_def spec_tile_def wd_def ht_def)
  have y: "\<And>r c. Square.y (spec_tile W H S r c) = Num (yf r)"
    by (simp add: spec_tile_def yf_def)
  have inj: "inj_on yf (set rs)"
    using assms(1) by (auto simp: inj_on_def yf_def)
  have d: "distinct rs" by (simp add: rs_def)
  have v: "v = concat (map (\<lambda>r. map (spec_tile W H S r) cs) rs)"
    using groupsOf_member(1)[OF assms(2)] filter_grid[of "spec_tile W H S" wd ht w h "[0..<C]" "[0..<R]", OF key]
    unfolding k spec_tiles_def C_def R_def cs_def rs_def by simp
  have "v \<noteq> []" by (rule groupsOf_member(2)[OF assms(2)])
  hence ne: "cs \<noteq> []" "rs \<noteq> []" unfolding v by auto
  note g = getGroup_grid[of "spec_tile W H S" yf rs cs, OF y inj d ne, folded v]
  show ?thesis
    using g ne by (intro exI[of _ "length rs"] exI[of _ "length cs"]) simp
qed

text \<open>
  Claim C6.  For a positive width, height and tile side, \<open>getGroup\<close> succeeds on every
  group of the partition; \<open>slices\<close> is the number of its squares, \<open>cols\<close> the length of
  the run of squares that share the \<open>y\<close> of the first one (\<open>1\<close> for a single square),
  \<open>rows = slices / cols\<close> is a whole number, and \<open>rows * cols = slices\<close>.
\<close>

theorem group_geometry_consistent:
  assumes "0 < W" and "0 < H" and "0 < S"
  shows "\<exists>gs. partition_squares (jsint W) (jsint H) (jsint S) = Some gs
          \<and> (\<forall>(k, v) \<in> set gs. \<exists>g n. getGroup v = Inr g
                \<and> slices g = length v
                \<and> cols g = length (takeWhile (\<lambda>t. Square.y t = Square.y (hd v)) v)
                \<and> (length v = 1 \<longrightarrow> cols g = 1)
                \<and> rows g = jsdiv (jsnat (slices g)) (jsnat (cols g))
                \<and> rows g = jsnat n
                \<and> jsmul (rows g) (jsnat (cols g)) = jsnat (slices g))"
proof -
  have "\<forall>(k, v) \<in> set (groupsOf (spec_tiles W H S)). \<exists>g n. getGroup v = Inr g
                \<and> slices g = length v
                \<and> cols g = length (takeWhile (\<lambda>t. Square.y t = Square.y (hd v)) v)
                \<and> (length v = 1 \<longrightarrow> cols g = 1)
                \<and> rows g = jsdiv (jsnat (slices g)) (jsnat (cols g))
                \<and> rows g = jsnat n
                \<and> jsmul (rows g) (jsnat (cols g)) = jsnat (slices g)"
  proof (intro ballI, clarify)
    fix a b v assume m: "((a, b), v) \<in> set (groupsOf (spec_tiles W H S))"
    from spec_group_geometry[OF assms(3) m] obtain nr nc where
      n: "0 < nr" "0 < nc" "length v = nr * nc"
      and g: "getGroup v = Inr \<lparr>slices = nr * nc, cols = nc, rows = jsnat nr,
                              Group.x = Square.x (hd v), Group.y = Square.y (hd v)\<rparr>"
      and t: "length (takeWhile (\<lambda>t. Square.y t = Square.y (hd v)) v) = nc"
      by blast
    let ?g = "\<lparr>slices = nr * nc, cols = nc, rows = jsnat nr,
                              Group.x = Square.x (hd v), Group.y = Square.y (hd v)\<rparr>"
    have "getGroup v = Inr ?g \<and> slices ?g = length v
        \<and> cols ?g = length (takeWhile (\<lambda>t. Square.y t = Square.y (hd v)) v)
        \<and> (length v = 1 \<longrightarrow> cols ?g = 1)
        \<and> rows ?g = jsdiv (jsnat (slices ?g)) (jsnat (cols ?g))
        \<and> rows ?g = jsnat nr
        \<and> jsmul (rows ?g) (jsnat (cols ?g)) = jsnat (slices ?g)"
      using n g t by simp
    thus "\<exists>g n. getGroup v = Inr g
                \<and> slices g = length v
                \<and> cols g = length (takeWhile (\<lambda>t. Square.y t = Square.y (hd v)) v)
                \<and> (length v = 1 \<longrightarrow> cols g = 1)
                \<and> rows g = jsdiv (jsnat (slices g)) (jsnat (cols g))
                \<and> rows g = jsnat n
                \<and> jsmul (rows g) (jsnat (cols g)) = jsnat (slices g)"
      by blast
  qed
  thus ?thesis using partition_squares_grid[OF assms] by blast
qed

theorem group_geometry_consistent_witness:
  "(0::int) < 450 \<and> (0::int) < 300 \<and> (0::int) < 200
   \<and> (\<exists>gs. partition_squares (jsint 450) (jsint 300) (jsint 200) = Some gs
          \<and> (\<forall>(k, v) \<in> set gs. \<exists>g n. getGroup v = Inr g
                \<and> slices g = length v
                \<and> cols g = length (takeWhile (\<lambda>t. Square.y t = Square.y (hd v)) v)
                \<and> (length v = 1 \<longrightarrow> cols g = 1)
                \<and> rows g = jsdiv (jsnat (slices g)) (jsnat (cols g))
                \<and> rows g = jsnat n
                \<and> jsmul (rows g) (jsnat (cols g)) = jsnat (slices g)))"
  using group_geometry_consistent [of 450 300 200] by simp

section \<open>The calls of the groups\<close>

lemma enumerate_map:
  "map (\<lambda>(index, square). f index square) (enumerate 0 xs) = map (\<lambda>i. f i (xs ! i)) [0..<length xs]"
  by (rule nth_equalityI) (simp_all add: nth_enumerate_eq)

lemma drawGroup_nonempty:
  assumes "squares \<noteq> []"
  shows "\<exists>d g. unShuffle seedrandom (Arr (createRange 0 (Some (int (length squares))) None)) seed = Some d
            \<and> getGroup squares = Inr g
            \<and> drawGroup seedrandom seed squares
               = Inr (map (\<lambda>i. drawSquare d g i (squares ! i)) [0..<length squares])"
proof -
  obtain g0 gr where s: "squares = g0 # gr" using assms by (cases squares) auto
  obtain g where g: "getGroup squares = Inr g" by (simp add: getGroup_def s Let_def)
  obtain d where d: "unShuffle seedrandom (Arr (createRange 0 (Some (int (length squares))) None)) seed = Some d"
    by (simp add: unShuffle_def)
  have "drawGroup seedrandom seed squares
               = Inr (map (\<lambda>i. drawSquare d g i (squares ! i)) [0..<length squares])"
    unfolding drawGroup_def Let_def d g by (simp add: enumerate_map)
  thus ?thesis using d g by blast
qed

lemma drawGroup_length:
  assumes "squares \<noteq> []"
  shows "\<exists>cs. drawGroup seedrandom seed squares = Inr cs \<and> length cs = length squares"
  using drawGroup_nonempty[OF assms, of seedrandom seed] by auto

lemma drawGroups_nonempty:
  assumes "\<forall>(k, v) \<in> set gs. v \<noteq> []"
  shows "drawGroups seedrandom seed gs
           = Inr (concat (map (\<lambda>(k, v). projr (drawGroup seedrandom seed v)) gs))"
  using assms
proof (induction gs)
  case Nil
  show ?case by simp
next
  case (Cons a gs)
  obtain k v where a: "a = (k, v)" by (cases a)
  have "v \<noteq> []" using Cons.prems a by simp
  then obtain cs where cs: "drawGroup seedrandom seed v = Inr cs"
    using drawGroup_length by blast
  have "\<forall>(k, v) \<in> set gs. v \<noteq> []" using Cons.prems by simp
  from Cons.IH[OF this] show ?case by (simp add: a cs)
qed

lemma length_group_calls:
  assumes "\<forall>(k, v) \<in> set gs. v \<noteq> []"
  shows "length (concat (map (\<lambda>(k, v). projr (drawGroup seedrandom seed v)) gs))
           = length (allSquares gs)"
  using assms
proof (induction gs)
  case Nil
  show ?case by (simp add: allSquares_def)
next
  case (Cons a gs)
  obtain k v where a: "a = (k, v)" by (cases a)
  have "v \<noteq> []" using Cons.prems a by simp
  then obtain cs where cs: "drawGroup seedrandom seed v = Inr cs" "length cs = length v"
    using drawGroup_length by blast
  have "\<forall>(k, v) \<in> set gs. v \<noteq> []" using Cons.prems by simp
  from Cons.IH[OF this] show ?case by (simp add: a cs allSquares_def)
qed

lemma groupsOf_nonempty: "\<forall>(k, v) \<in> set (groupsOf ts). v \<noteq> []"
  using groupsOf_member(2) by blast

lemma length_allSquares_groupsOf: "length (allSquares (groupsOf ts)) = length ts"
  using count_groupsOf[of "\<lambda>_. True" ts] by (simp add: allSquares_def)

lemma imgReverser_groupsOf:
  assumes "loadImage url = Inr im"
    and "partition_squares (jsint (imgWidth im)) (jsint (imgHeight im)) S = Some (groupsOf ts)"
  shows "imgReverser seedrandom loadImage url S seed
       = Some (Inr \<lparr>canvasWidth = imgWidth im, canvasHeight = imgHeight im, drawnFrom = im,
                    calls = concat (map (\<lambda>(k, v). projr (drawGroup seedrandom seed v)) (groupsOf ts))\<rparr>)"
  using assms
  by (simp add: imgReverser_def Let_def drawGroups_nonempty[OF groupsOf_nonempty])

section \<open>No check of the configuration\<close>

text \<open>
  Claim C7 says that a tile side or an image dimension that is zero or negative is
  rejected with a ConfigurationError before the partition.  The program has no such
  check.  With the tile side \<open>-200\<close> on an image of 450 by 300 it partitions, copies
  two tiles of negative size and returns.
\<close>

theorem negative_tile_side_counterexample:
  "imgReverser (constGenerator doubleHalf) (blankImage 450 300) () (Num (- 200)) ''stay''
     = Some (Inr \<lparr>canvasWidth = 450, canvasHeight = 300,
          drawnFrom = \<lparr>imgWidth = 450, imgHeight = 300, pixels = ()\<rparr>,
          calls =
            [\<lparr>sx = Num 0, sy = Num (- 200), sWidth = Num (- 200),
                sHeight = Num (- 200), dx = Num 0, dy = Num 0,
                dWidth = Num (- 200), dHeight = Num (- 200)\<rparr>,
             \<lparr>sx = Num 0, sy = Num 0, sWidth = Num (- 200),
                sHeight = Num (- 200), dx = Num 200, dy = Num 200,
                dWidth = Num (- 200), dHeight = Num (- 200)\<rparr>]\<rparr>)"
  by code_simp

text \<open>
  Claim C7 as amended.  For every negative tile side, on an image of positive width and
  height, the reconstruction raises no error: it partitions and returns after
  \<open>ceil(W / S) * ceil(H / S)\<close> copies.  Nothing is said of the tile side zero, nor of
  an image whose width or height is not positive.
\<close>

theorem no_configuration_check:
  assumes "loadImage url = Inr im" and "imgWidth im = W" and "imgHeight im = H"
    and "0 < W" and "0 < H" and "S < 0"
  shows "\<exists>cs. imgReverser seedrandom loadImage url (jsint S) seed
                = Some (Inr \<lparr>canvasWidth = W, canvasHeight = H, drawnFrom = im, calls = cs\<rparr>)
            \<and> int (length cs) = \<lceil>of_int W / (of_int S :: rat)\<rceil> * \<lceil>of_int H / (of_int S :: rat)\<rceil>"
proof -
  let ?n = "\<lceil>of_int W / (of_int S :: rat)\<rceil> * \<lceil>of_int H / (of_int S :: rat)\<rceil>"
  let ?ts = "map (makeSquare (jsint W) (jsint H) (jsint S) (jsint \<lceil>of_int W / (of_int S :: rat)\<rceil>))
        [0..<nat ?n]"
  let ?cs = "concat (map (\<lambda>(k, v). projr (drawGroup seedrandom seed v)) (groupsOf ?ts))"
  have S: "S \<noteq> 0" using assms(6) by simp
  have p: "partition_squares (jsint (imgWidth im)) (jsint (imgHeight im)) (jsint S) = Some (groupsOf ?ts)"
    unfolding assms(2,3) by (rule partition_squares_int[OF S])
  have r: "imgReverser seedrandom loadImage url (jsint S) seed
                    = Some (Inr \<lparr>canvasWidth = W, canvasHeight = H, drawnFrom = im, calls = ?cs\<rparr>)"
    using imgReverser_groupsOf[where loadImage = loadImage and url = url and im = im
        and S = "jsint S" and ts = ?ts and seedrandom = seedrandom and seed = seed, OF assms(1) p]
    by (simp add: assms(2,3))
  have l: "length ?cs = nat ?n"
    by (simp only: length_group_calls[OF groupsOf_nonempty] length_allSquares_groupsOf length_map length_upt minus_nat.diff_0)
  have "(of_int W :: rat) / of_int S \<le> 0" using assms(4,6) by (simp add: divide_le_0_iff)
  hence cw: "\<lceil>of_int W / (of_int S :: rat)\<rceil> \<le> 0" by (simp only: ceiling_le_zero)
  have "(of_int H :: rat) / of_int S \<le> 0" using assms(5,6) by (simp add: divide_le_0_iff)
  hence ch: "\<lceil>of_int H / (of_int S :: rat)\<rceil> \<le> 0" by (simp only: ceiling_le_zero)
  have "0 \<le> ?n" by (rule mult_nonpos_nonpos[OF cw ch])
  hence "int (length ?cs) = ?n" unfolding l by simp
  thus ?thesis using r by blast
qed

theorem no_configuration_check_witness:
  "blankImage 450 300 () = Inr \<lparr>imgWidth = 450, imgHeight = 300, pixels = ()\<rparr>
   \<and> (0::int) < 450 \<and> (0::int) < 300 \<and> (- 200 :: int) < 0
   \<and> (\<exists>cs. imgReverser (constGenerator doubleHalf) (blankImage 450 300) () (jsint (- 200)) ''stay''
              = Some (Inr \<lparr>canvasWidth = 450, canvasHeight = 300,
                    drawnFrom = \<lparr>imgWidth = 450, imgHeight = 300, pixels = ()\<rparr>, calls = cs\<rparr>)
            \<and> int (length cs)
                = \<lceil>of_int 450 / (of_int (- 200) :: rat)\<rceil> * \<lceil>of_int 300 / (of_int (- 200) :: rat)\<rceil>)"
  using no_configuration_check [of "blankImage 450 300" "()" "\<lparr>imgWidth = 450, imgHeight = 300, pixels = ()\<rparr>"
          450 300 "- 200" "constGenerator doubleHalf" "''stay''"]
  by (simp add: blankImage_def)

section \<open>The copy of each tile\<close>

lemma drawSquare_spec:
  assumes "idx < length permutation" and "0 < cols geometry"
  shows "drawSquare (map (\<lambda>v. Some (int v)) permutation) geometry idx tile
           = spec_call permutation geometry idx tile"
proof -
  have c: "int (cols geometry) \<noteq> 0" using assms(2) by simp
  have i: "jsIndex (map (\<lambda>v. Some (int v)) permutation) (int idx) = Some (Some (int (permutation ! idx)))"
    using assms(1) by (simp add: jsIndex_def)
  show ?thesis
    unfolding drawSquare_def spec_call_def Let_def i option.case
    by (simp only: jsnat_int jsint_floor_div[OF c] jsint_mul jsint_sub)
qed

lemma permute_perm:
  assumes "\<forall>k. 0 \<le> doubleValue (seedrandom seed k) \<and> doubleValue (seedrandom seed k) < 1"
    and "N < 2 ^ 53"
  shows "\<exists>p. unShuffle seedrandom (Arr (createRange 0 (Some (int N)) None)) seed
                = Some (map (\<lambda>v. Some (int v)) p)
            \<and> length p = N \<and> distinct p \<and> set p = {0..<N}"
proof -
  obtain p where p: "spec_permute (seedrandom seed) N = map Some p" "length p = N"
      "distinct p" "set p = {0..<N}"
    using spec_permute_bijection[where rng = "seedrandom seed" and N = N, OF assms] by blast
  have "unShuffle seedrandom (Arr (createRange 0 (Some (int N)) None)) seed
            = Some (map (\<lambda>v. Some (int v)) p)"
    using unShuffleRun_spec(1)[where seedrandom = seedrandom and seed = seed and N = N, OF assms] p(1)
    by (simp add: unShuffle_def createRange_upt comp_def)
  thus ?thesis using p by blast
qed

lemma length_spec_tiles:
  "length (spec_tiles W H S)
     = nat \<lceil>of_int H / (of_int S :: rat)\<rceil> * nat \<lceil>of_int W / (of_int S :: rat)\<rceil>"
  unfolding spec_tiles_def by (simp only: grid_index[symmetric] length_map length_upt minus_nat.diff_0)

lemma drawGroup_spec:
  assumes "\<forall>k. 0 \<le> doubleValue (seedrandom seed k) \<and> doubleValue (seedrandom seed k) < 1"
    and "length tiles < 2 ^ 53"
    and "getGroup tiles = Inr geometry" and "0 < cols geometry"
  shows "\<exists>permutation. permute seedrandom (length tiles) seed = Some (map (\<lambda>v. Some (int v)) permutation)
          \<and> length permutation = length tiles \<and> distinct permutation
          \<and> set permutation = {0..<length tiles}
          \<and> drawGroup seedrandom seed tiles
               = Inr (map (\<lambda>idx. spec_call permutation geometry idx (tiles ! idx)) [0..<length tiles])"
proof -
  obtain p where p: "unShuffle seedrandom (Arr (createRange 0 (Some (int (length tiles))) None)) seed
                = Some (map (\<lambda>v. Some (int v)) p)"
     "length p = length tiles" "distinct p" "set p = {0..<length tiles}"
    using permute_perm[where seedrandom = seedrandom and seed = seed and N = "length tiles",
        OF assms(1,2)] by blast
  have "map (\<lambda>i. drawSquare (map (\<lambda>v. Some (int v)) p) geometry i (tiles ! i)) [0..<length tiles]
      = map (\<lambda>idx. spec_call p geometry idx (tiles ! idx)) [0..<length tiles]"
    using drawSquare_spec[OF _ assms(4), of _ p] p(2) by simp
  hence "drawGroup seedrandom seed tiles
               = Inr (map (\<lambda>idx. spec_call p geometry idx (tiles ! idx)) [0..<length tiles])"
    unfolding drawGroup_def Let_def p(1) assms(3) by (simp add: enumerate_map)
  thus ?thesis using p unfolding permute_def by blast
qed

text \<open>
  Claim C4.  For a positive width, height and tile side with fewer than \<open>2^53\<close> tiles
  and a stream of doubles in \<open>[0,1)\<close>, the reconstruction succeeds and its calls of
  \<open>drawImage\<close> are those of the groups, group after group; in each group, with
  \<open>permutation\<close> the result of \<open>permute\<close> for the size of the group and \<open>geometry\<close> the
  result of \<open>getGroup\<close>, the call for the tile at position \<open>idx\<close> is the copy that the
  specification describes (\<open>spec_call\<close>).
\<close>

theorem reassembly_copies_blocks:
  assumes "\<forall>k. 0 \<le> doubleValue (seedrandom seed k) \<and> doubleValue (seedrandom seed k) < 1"
    and "0 < W" and "0 < H" and "0 < S"
    and "\<lceil>of_int W / (of_int S :: rat)\<rceil> * \<lceil>of_int H / (of_int S :: rat)\<rceil> < 2 ^ 53"
    and "loadImage url = Inr im" and "imgWidth im = W" and "imgHeight im = H"
  shows "\<exists>gs. partition_squares (jsint W) (jsint H) (jsint S) = Some gs
          \<and> imgReverser seedrandom loadImage url (jsint S) seed
              = Some (Inr \<lparr>canvasWidth = W, canvasHeight = H, drawnFrom = im,
                     calls = concat (map (\<lambda>(k, tiles). projr (drawGroup seedrandom seed tiles)) gs)\<rparr>)
          \<and> (\<forall>(k, tiles) \<in> set gs. \<exists>permutation geometry.
                 permute seedrandom (length tiles) seed = Some (map (\<lambda>v. Some (int v)) permutation)
               \<and> getGroup tiles = Inr geometry
               \<and> drawGroup seedrandom seed tiles
                   = Inr (map (\<lambda>idx. spec_call permutation geometry idx (tiles ! idx))
                            [0..<length tiles]))"
proof -
  let ?gs = "groupsOf (spec_tiles W H S)"
  have p: "partition_squares (jsint W) (jsint H) (jsint S) = Some ?gs"
    by (rule partition_squares_grid[OF assms(2-4)])
  hence p': "partition_squares (jsint (imgWidth im)) (jsint (imgHeight im)) (jsint S) = Some ?gs"
    by (simp add: assms)
  have i: "imgReverser seedrandom loadImage url (jsint S) seed
              = Some (Inr \<lparr>canvasWidth = W, canvasHeight = H, drawnFrom = im,
                     calls = concat (map (\<lambda>(k, tiles). projr (drawGroup seedrandom seed tiles)) ?gs)\<rparr>)"
    using imgReverser_groupsOf[where loadImage = loadImage and url = url and im = im
        and S = "jsint S" and ts = "spec_tiles W H S" and seedrandom = seedrandom and seed = seed,
        OF assms(6) p']
    by (simp add: assms)
  have g: "\<forall>(k, tiles) \<in> set ?gs. \<exists>permutation geometry.
                 permute seedrandom (length tiles) seed = Some (map (\<lambda>v. Some (int v)) permutation)
               \<and> getGroup tiles = Inr geometry
               \<and> drawGroup seedrandom seed tiles
                   = Inr (map (\<lambda>idx. spec_call permutation geometry idx (tiles ! idx))
                            [0..<length tiles])"
  proof (intro ballI, clarify)
    fix a b tiles assume m: "((a, b), tiles) \<in> set ?gs"
    from spec_group_geometry[OF assms(4) m] obtain nr nc where
      n: "0 < nc"
      and g: "getGroup tiles = Inr \<lparr>slices = nr * nc, cols = nc, rows = jsnat nr,
                              Group.x = Square.x (hd tiles), Group.y = Square.y (hd tiles)\<rparr>"
      by blast
    have cp: "0 < cols \<lparr>slices = nr * nc, cols = nc, rows = jsnat nr,
                              Group.x = Square.x (hd tiles), Group.y = Square.y (hd tiles)\<rparr>"
      using n by simp
    have "tiles = bucket (a, b) (spec_tiles W H S)" by (rule groupsOf_member(1)[OF m])
    hence "length tiles \<le> length (spec_tiles W H S)" by (simp add: bucket_def)
    also have "\<dots> = nat (\<lceil>of_int W / (of_int S :: rat)\<rceil> * \<lceil>of_int H / (of_int S :: rat)\<rceil>)"
      using ceil_pos[OF assms(2,4)] ceil_pos[OF assms(3,4)]
      by (simp add: length_spec_tiles nat_mult_distrib mult.commute)
    also have "\<dots> < 2 ^ 53" using assms(5) by simp
    finally have lt: "length tiles < 2 ^ 53" .
    from drawGroup_spec[where seedrandom = seedrandom and seed = seed and tiles = tiles,
        OF assms(1) lt g cp] g
    show "\<exists>permutation geometry.
                 permute seedrandom (length tiles) seed = Some (map (\<lambda>v. Some (int v)) permutation)
               \<and> getGroup tiles = Inr geometry
               \<and> drawGroup seedrandom seed tiles
                   = Inr (map (\<lambda>idx. spec_call permutation geometry idx (tiles ! idx))
                            [0..<length tiles])"
      by blast
  qed
  show ?thesis using p i g by blast
qed

theorem reassembly_copies_blocks_witness:
  "(\<forall>k. 0 \<le> doubleValue (constGenerator doubleHalf ''stay'' k)
         \<and> doubleValue (constGenerator doubleHalf ''stay'' k) < 1)
   \<and> (0::int) < 450 \<and> (0::int) < 300 \<and> (0::int) < 200
   \<and> \<lceil>of_int 450 / (of_int 200 :: rat)\<rceil> * \<lceil>of_int 300 / (of_int 200 :: rat)\<rceil> < 2 ^ 53
   \<and> blankImage 450 300 () = Inr \<lparr>imgWidth = 450, imgHeight = 300, pixels = ()\<rparr>
   \<and> (\<exists>gs. partition_squares (jsint 450) (jsint 300) (jsint 200) = Some gs
          \<and> imgReverser (constGenerator doubleHalf) (blankImage 450 300) () (jsint 200) ''stay''
              = Some (Inr \<lparr>canvasWidth = 450, canvasHeight = 300,
                     drawnFrom = \<lparr>imgWidth = 450, imgHeight = 300, pixels = ()\<rparr>,
                     calls = concat (map (\<lambda>(k, tiles).
                               projr (drawGroup (constGenerator doubleHalf) ''stay'' tiles)) gs)\<rparr>)
          \<and> (\<forall>(k, tiles) \<in> set gs. \<exists>permutation geometry.
                 permute (constGenerator doubleHalf) (length tiles) ''stay''
                   = Some (map (\<lambda>v. Some (int v)) permutation)
               \<and> getGroup tiles = Inr geometry
               \<and> drawGroup (constGenerator doubleHalf) ''stay'' tiles
                   = Inr (map (\<lambda>idx. spec_call permutation geometry idx (tiles ! idx))
                            [0..<length tiles])))"
proof -
  have v: "\<forall>k. 0 \<le> doubleValue (constGenerator doubleHalf ''stay'' k)
         \<and> doubleValue (constGenerator doubleHalf ''stay'' k) < 1"
    by (simp add: constGenerator_def doubleHalf.rep_eq)
  have l: "blankImage 450 300 () = Inr \<lparr>imgWidth = 450, imgHeight = 300, pixels = ()\<rparr>"
    by (simp add: blankImage_def)
  have c: "\<lceil>of_int 450 / (of_int 200 :: rat)\<rceil> * \<lceil>of_int 300 / (of_int 200 :: rat)\<rceil> < (2::int) ^ 53"
    by code_simp
  show ?thesis
    using v l c reassembly_copies_blocks
      [where seedrandom = "constGenerator doubleHalf" and seed = "''stay''" and W = 450 and H = 300
         and S = 200 and loadImage = "blankImage 450 300" and url = "()"
         and im = "\<lparr>imgWidth = 450, imgHeight = 300, pixels = ()\<rparr>", OF v _ _ _ c l]
    by simp
qed

end
